theory Spec2Isabelle
  imports Main
begin

section \<open>Errors\<close>

text \<open>
  A failed \<^verbatim>\<open>assert\<close> aborts the program, and so does the exception of
  \<^verbatim>\<open>std::map::at\<close> for a missing key, which nothing catches; the model returns them
  as values.
\<close>

datatype error = AssertionFailed | OutOfRange

section \<open>Escaping of variable names (itrs/itrs.cpp)\<close>

text \<open>
  The character classes of \<^verbatim>\<open>cctype\<close> in the C locale, on the code of a byte.
\<close>

definition isdigit :: "char \<Rightarrow> bool" where
  "isdigit c = (48 \<le> (of_char c :: nat) \<and> (of_char c :: nat) \<le> 57)"

definition isalpha :: "char \<Rightarrow> bool" where
  "isalpha c = ((65 \<le> (of_char c :: nat) \<and> (of_char c :: nat) \<le> 90)
              \<or> (97 \<le> (of_char c :: nat) \<and> (of_char c :: nat) \<le> 122))"

definition isalnum :: "char \<Rightarrow> bool" where
  "isalnum c = (isalpha c \<or> isdigit c)"

text \<open>
  The loop of \<^verbatim>\<open>escapeVarname\<close>, with the position \<open>i\<close> and the string that is
  overwritten in place:
  \<^verbatim>\<open>for (int i=0; i < name.length(); ++i) {
      if (name[i] == 'I') name[i] = 'Q';
      if (!isalnum(name[i])) name[i] = '_';
  }\<close>
  The counter is a natural number here: a name is one word of one line of the input file.
\<close>

function escapeLoop :: "nat \<Rightarrow> string \<Rightarrow> string" where
  "escapeLoop i name =
     (if i < length name then
        (let name1 = (if name ! i = CHR ''I'' then name[i := CHR ''Q''] else name);
             name2 = (if \<not> isalnum (name1 ! i) then name1[i := CHR ''_''] else name1)
         in escapeLoop (i + 1) name2)
      else name)"
  by pat_completeness auto
termination
  by (relation "measure (\<lambda>(i, name). length name - i)") (auto simp: Let_def)

text \<open>
  \<^verbatim>\<open>escapeVarname\<close> starts with \<^verbatim>\<open>assert(!name.empty())\<close>; after the loop it puts
  a \<^verbatim>\<open>q\<close> in front of a name whose first character is not a letter.
\<close>

definition escapeVarname :: "string \<Rightarrow> error + string" where
  "escapeVarname name =
     (if name = [] then Inl AssertionFailed
      else (let name' = escapeLoop 0 name
            in if \<not> isalpha (name' ! 0) then Inr (''q'' @ name') else Inr name'))"

declare escapeLoop.simps [simp del]

text \<open>What one round of the loop leaves at a position that held \<open>c\<close>.\<close>

definition esc :: "char \<Rightarrow> char" where
  "esc c = (if c = CHR ''I'' then CHR ''Q'' else if isalnum c then c else CHR ''_'')"

section \<open>Expressions (the algebra library, as far as the code uses it)\<close>

text \<open>
  Modelled from the spec: the class \<^verbatim>\<open>Expression\<close> (expr/expression.h, a wrapper of a
  GiNaC expression) is not among the sources. The spec calls it an opaque algebraic term
  over variables and integer constants, with substitution; the model is the term
  language the code under study builds: integer constants, symbols, sums, products, the
  application \<^verbatim>\<open>x(...)\<close> of the recurrence solver, and relations between two terms.
  A symbol is the symbol of a variable of the variable manager (\<open>Var\<close>, the value of
  \<^verbatim>\<open>getGinacSymbol\<close>), the cost symbol \<^verbatim>\<open>Expression::InfSymbol\<close>, or the index
  \<^verbatim>\<open>Purrs::Recurrence::n\<close> of a recurrence.
\<close>

type_synonym VariableIdx = nat

datatype ExprSymbol = Var VariableIdx | InfSymbol | PurrsN

datatype relop =
    relation_equal | relation_not_equal
  | relation_less | relation_less_or_equal
  | relation_greater | relation_greater_or_equal

datatype Expression =
    Numeric int
  | Symbol ExprSymbol
  | PurrsX Expression
  | Add Expression Expression
  | Mul Expression Expression
  | Relational relop Expression Expression

text \<open>The difference \<^verbatim>\<open>a - b\<close> is the sum of \<open>a\<close> and \<open>-1\<close> times \<open>b\<close>, as in GiNaC.\<close>

definition minus :: "Expression \<Rightarrow> Expression \<Rightarrow> Expression" where
  "minus a b = Add a (Mul (Numeric (- 1)) b)"

text \<open>
  The value of a term under an integer valuation \<open>\<sigma>\<close> of the symbols and an
  interpretation \<open>X\<close> of the solver's \<^verbatim>\<open>x\<close>; a relation has the value 1 or 0.
\<close>

fun cmp :: "relop \<Rightarrow> int \<Rightarrow> int \<Rightarrow> bool" where
  "cmp relation_equal a b = (a = b)"
| "cmp relation_not_equal a b = (a \<noteq> b)"
| "cmp relation_less a b = (a < b)"
| "cmp relation_less_or_equal a b = (a \<le> b)"
| "cmp relation_greater a b = (a > b)"
| "cmp relation_greater_or_equal a b = (a \<ge> b)"

fun eval :: "(ExprSymbol \<Rightarrow> int) \<Rightarrow> (int \<Rightarrow> int) \<Rightarrow> Expression \<Rightarrow> int" where
  "eval \<sigma> X (Numeric k) = k"
| "eval \<sigma> X (Symbol s) = \<sigma> s"
| "eval \<sigma> X (PurrsX e) = X (eval \<sigma> X e)"
| "eval \<sigma> X (Add a b) = eval \<sigma> X a + eval \<sigma> X b"
| "eval \<sigma> X (Mul a b) = eval \<sigma> X a * eval \<sigma> X b"
| "eval \<sigma> X (Relational op a b) = (if cmp op (eval \<sigma> X a) (eval \<sigma> X b) then 1 else 0)"

text \<open>A relation holds under a valuation when its two sides compare as it says.\<close>

fun holds :: "(ExprSymbol \<Rightarrow> int) \<Rightarrow> (int \<Rightarrow> int) \<Rightarrow> Expression \<Rightarrow> bool" where
  "holds \<sigma> X (Relational op a b) = cmp op (eval \<sigma> X a) (eval \<sigma> X b)"
| "holds \<sigma> X _ = False"

text \<open>\<^verbatim>\<open>ex.info(info_flags::relation_...)\<close> and \<^verbatim>\<open>ex.is_zero()\<close>.\<close>

fun info :: "Expression \<Rightarrow> relop \<Rightarrow> bool" where
  "info (Relational op a b) flag = (op = flag)"
| "info _ flag = False"

definition is_zero :: "Expression \<Rightarrow> bool" where
  "is_zero e = (e = Numeric 0)"

section \<open>Relations (expr/relation.cpp)\<close>

text \<open>
  \<^verbatim>\<open>isRelation\<close>: a relational with two operands that is not \<open>!=\<close>.
\<close>

definition isRelation :: "Expression \<Rightarrow> bool" where
  "isRelation ex = (case ex of Relational op a b \<Rightarrow> \<not> info ex relation_not_equal | _ \<Rightarrow> False)"

definition isEquality :: "Expression \<Rightarrow> bool" where
  "isEquality ex = (isRelation ex \<and> info ex relation_equal)"

definition isInequality :: "Expression \<Rightarrow> bool" where
  "isInequality ex = (isRelation ex \<and> \<not> isEquality ex)"

definition isNormalizedInequality :: "Expression \<Rightarrow> bool" where
  "isNormalizedInequality ex =
     (case ex of
        Relational op a b \<Rightarrow> isInequality ex \<and> info ex relation_greater \<and> is_zero b
      | _ \<Rightarrow> False)"

text \<open>
  \<^verbatim>\<open>transformInequalityGreater\<close>: flip \<open><\<close> and \<open><=\<close>, then turn \<open>>=\<close> into \<open>>\<close>
  by adding 1 on the left. Both \<^verbatim>\<open>assert\<close>s are branches of the model.
\<close>

definition transformInequalityGreater :: "Expression \<Rightarrow> error + Expression" where
  "transformInequalityGreater rel =
     (if \<not> isInequality rel then Inl AssertionFailed
      else
        (let rel1 = (case rel of
                       Relational op l r \<Rightarrow>
                         if info rel relation_less then Relational relation_greater r l
                         else if info rel relation_less_or_equal
                           then Relational relation_greater_or_equal r l
                         else rel
                     | _ \<Rightarrow> rel);
             rel2 = (case rel1 of
                       Relational op l r \<Rightarrow>
                         if info rel1 relation_greater_or_equal
                           then Relational relation_greater (Add l (Numeric 1)) r
                         else rel1
                     | _ \<Rightarrow> rel1)
         in if info rel2 relation_greater then Inr rel2 else Inl AssertionFailed))"

text \<open>
  \<^verbatim>\<open>normalizeInequality\<close>: the difference of the two sides of the \<open>>\<close> form, compared
  with 0. (GiNaC brings the difference into its canonical form when it builds it; the
  model keeps the difference as it is written, which has the same value.)
\<close>

definition normalizeInequality :: "Expression \<Rightarrow> error + Expression" where
  "normalizeInequality rel =
     (if \<not> isInequality rel then Inl AssertionFailed
      else
        (case transformInequalityGreater rel of
           Inl e \<Rightarrow> Inl e
         | Inr (Relational op l r) \<Rightarrow>
             (let normalized = Relational relation_greater (minus l r) (Numeric 0)
              in if isNormalizedInequality normalized then Inr normalized
                 else Inl AssertionFailed)
         | Inr _ \<Rightarrow> Inl AssertionFailed))"

section \<open>Complexity classes and results\<close>

text \<open>
  Modelled from the spec: the class \<^verbatim>\<open>Complexity\<close> (expr/complexity.h) is not among the
  sources. The spec gives a totally ordered set of classes,
  \<open>Unknown < Const < Poly d < Exp < Infty\<close>, with \<open>Poly d1 < Poly d2\<close> iff \<open>d1 < d2\<close>.
\<close>

datatype Complexity = Unknown | Const | Poly nat | Exp | Infty

fun cpxRank :: "Complexity \<Rightarrow> nat \<times> nat" where
  "cpxRank Unknown = (0, 0)"
| "cpxRank Const = (1, 0)"
| "cpxRank (Poly d) = (2, d)"
| "cpxRank Exp = (3, 0)"
| "cpxRank Infty = (4, 0)"

instantiation Complexity :: linorder
begin

definition less_eq_Complexity :: "Complexity \<Rightarrow> Complexity \<Rightarrow> bool" where
  "less_eq_Complexity a b =
     (fst (cpxRank a) < fst (cpxRank b)
      \<or> (fst (cpxRank a) = fst (cpxRank b) \<and> snd (cpxRank a) \<le> snd (cpxRank b)))"

definition less_Complexity :: "Complexity \<Rightarrow> Complexity \<Rightarrow> bool" where
  "less_Complexity a b =
     (fst (cpxRank a) < fst (cpxRank b)
      \<or> (fst (cpxRank a) = fst (cpxRank b) \<and> snd (cpxRank a) < snd (cpxRank b)))"

instance
proof
  fix x y z :: Complexity
  show "(x < y) = (x \<le> y \<and> \<not> y \<le> x)"
    by (auto simp: less_eq_Complexity_def less_Complexity_def)
  show "x \<le> x"
    by (simp add: less_eq_Complexity_def)
  show "x \<le> y \<Longrightarrow> y \<le> z \<Longrightarrow> x \<le> z"
    by (auto simp: less_eq_Complexity_def)
  show "x \<le> y \<Longrightarrow> y \<le> x \<Longrightarrow> x = y"
    by (cases x; cases y) (auto simp: less_eq_Complexity_def)
  show "x \<le> y \<or> y \<le> x"
    by (auto simp: less_eq_Complexity_def)
qed

end

type_synonym GuardList = "Expression list"

text \<open>
  Modelled from the spec: \<^verbatim>\<open>RuntimeResult\<close> (analysis.h) is not among the sources. The
  spec gives its four members; the code says of a default-constructed result that it
  ``defaults to unknown complexity''. The bound of a default-constructed result is not
  fixed by the spec: it is the parameter \<open>bound0\<close>.
\<close>

record RuntimeResult =
  cpx :: Complexity
  bound :: Expression
  reducedCpx :: Complexity
  guard :: GuardList

definition RuntimeResult_default :: "Expression \<Rightarrow> RuntimeResult" where
  "RuntimeResult_default bound0 =
     \<lparr>cpx = Unknown, bound = bound0, reducedCpx = Unknown, guard = []\<rparr>"

section \<open>The rule store\<close>

text \<open>
  Modelled from the spec: the classes \<^verbatim>\<open>Rule\<close> and \<^verbatim>\<open>ITSProblem\<close> (its/rule.h,
  its/itsproblem.h) are not among the sources, only the variable manager's declaration
  is. The spec's data model: a rule has a source location, a guard, a cost and one or
  more right-hand sides (target location and update); the store owns locations and rules,
  hands out increasing rule indices that are never reused, lists the rules leaving a
  location, entering it or between two locations in a deterministic order, and lists the
  successor locations without repetition in a deterministic order. Here the rules are
  kept in the order of their indices and successor locations are listed in increasing
  order. An update maps variable indices to expressions, in the order of the indices.
\<close>

type_synonym LocationIdx = nat
type_synonym TransIdx = nat
type_synonym UpdateMap = "(VariableIdx \<times> Expression) list"

record Rule =
  getLhsLoc :: LocationIdx
  getGuard :: GuardList
  getCost :: Expression
  getRhss :: "(LocationIdx \<times> UpdateMap) list"

record ITSProblem =
  rules :: "(TransIdx \<times> Rule) list"
  nextTransIdx :: TransIdx
  locations :: "LocationIdx list"
  nextUnusedLocation :: LocationIdx
  initialLocation :: LocationIdx
  temporaryVariables :: "VariableIdx set"

definition getRhsLocs :: "Rule \<Rightarrow> LocationIdx list" where
  "getRhsLocs r = map fst (getRhss r)"

text \<open>The dummy rule of the spec: trivially true guard, cost 0, no update.\<close>

definition dummyRule :: "LocationIdx \<Rightarrow> LocationIdx \<Rightarrow> Rule" where
  "dummyRule lhs rhs =
     \<lparr>getLhsLoc = lhs, getGuard = [], getCost = Numeric 0, getRhss = [(rhs, [])]\<rparr>"

definition getTransitionsFrom :: "ITSProblem \<Rightarrow> LocationIdx \<Rightarrow> TransIdx list" where
  "getTransitionsFrom its loc =
     map fst (filter (\<lambda>(idx, r). getLhsLoc r = loc) (rules its))"

definition getTransitionsFromTo :: "ITSProblem \<Rightarrow> LocationIdx \<Rightarrow> LocationIdx \<Rightarrow> TransIdx list" where
  "getTransitionsFromTo its a b =
     map fst (filter (\<lambda>(idx, r). getLhsLoc r = a \<and> b \<in> set (getRhsLocs r)) (rules its))"

definition hasTransitionsTo :: "ITSProblem \<Rightarrow> LocationIdx \<Rightarrow> bool" where
  "hasTransitionsTo its loc = (\<exists>(idx, r) \<in> set (rules its). loc \<in> set (getRhsLocs r))"

definition getSuccessorLocations :: "ITSProblem \<Rightarrow> LocationIdx \<Rightarrow> LocationIdx list" where
  "getSuccessorLocations its loc =
     sort (remdups (concat (map (\<lambda>(idx, r). getRhsLocs r)
        (filter (\<lambda>(idx, r). getLhsLoc r = loc) (rules its)))))"

text \<open>
  The spec leaves a lookup with an index that is not in the store to the store (``may
  panic or return a sentinel''); here it returns a dummy rule.
\<close>

definition getRule :: "ITSProblem \<Rightarrow> TransIdx \<Rightarrow> Rule" where
  "getRule its idx = (case map_of (rules its) idx of Some r \<Rightarrow> r | None \<Rightarrow> dummyRule 0 0)"

definition addRule :: "ITSProblem \<Rightarrow> Rule \<Rightarrow> ITSProblem" where
  "addRule its r =
     its\<lparr>rules := rules its @ [(nextTransIdx its, r)], nextTransIdx := Suc (nextTransIdx its)\<rparr>"

definition removeRule :: "ITSProblem \<Rightarrow> TransIdx \<Rightarrow> ITSProblem" where
  "removeRule its idx = its\<lparr>rules := filter (\<lambda>(i, r). i \<noteq> idx) (rules its)\<rparr>"

definition addLocation :: "ITSProblem \<Rightarrow> LocationIdx \<times> ITSProblem" where
  "addLocation its =
     (nextUnusedLocation its,
      its\<lparr>locations := locations its @ [nextUnusedLocation its],
          nextUnusedLocation := Suc (nextUnusedLocation its)\<rparr>)"

definition setInitialLocation :: "ITSProblem \<Rightarrow> LocationIdx \<Rightarrow> ITSProblem" where
  "setInitialLocation its loc = its\<lparr>initialLocation := loc\<rparr>"

definition isEmpty :: "ITSProblem \<Rightarrow> bool" where
  "isEmpty its = (getTransitionsFrom its (initialLocation its) = [])"

text \<open>
  The invariants of the spec's data model: the source and the targets of every rule are
  locations of the store, and so is the initial location; the rules are kept in the
  order of their indices, which are unique; rule and location indices in use are below
  the next ones to be handed out.
\<close>

definition wellformed :: "ITSProblem \<Rightarrow> bool" where
  "wellformed its =
     ((\<forall>(idx, r) \<in> set (rules its).
          idx < nextTransIdx its
          \<and> getLhsLoc r \<in> set (locations its)
          \<and> set (getRhsLocs r) \<subseteq> set (locations its))
      \<and> sorted_wrt (<) (map fst (rules its))
      \<and> initialLocation its \<in> set (locations its)
      \<and> (\<forall>loc \<in> set (locations its). loc < nextUnusedLocation its))"

text \<open>\<^verbatim>\<open>isTempVar\<close> of the variable manager, on a symbol.\<close>

fun isTempVar :: "ITSProblem \<Rightarrow> ExprSymbol \<Rightarrow> bool" where
  "isTempVar its (Var v) = (v \<in> temporaryVariables its)"
| "isTempVar its _ = False"

text \<open>The symbols of an expression, and \<^verbatim>\<open>hasVariableWith\<close>, \<^verbatim>\<open>isInfSymbol\<close>.\<close>

fun getVariables :: "Expression \<Rightarrow> ExprSymbol list" where
  "getVariables (Numeric k) = []"
| "getVariables (Symbol s) = [s]"
| "getVariables (PurrsX e) = getVariables e"
| "getVariables (Add a b) = getVariables a @ getVariables b"
| "getVariables (Mul a b) = getVariables a @ getVariables b"
| "getVariables (Relational op a b) = getVariables a @ getVariables b"

definition hasVariableWith :: "(ExprSymbol \<Rightarrow> bool) \<Rightarrow> Expression \<Rightarrow> bool" where
  "hasVariableWith p e = list_ex p (getVariables e)"

definition isInfSymbol :: "Expression \<Rightarrow> bool" where
  "isInfSymbol e = (e = Symbol InfSymbol)"

section \<open>The collaborators of the analysis\<close>

text \<open>
  The analysis calls code that is not among the sources; the model takes it as
  parameters, collected in one record:
  \<^item> \<open>getComplexity\<close>: \<^verbatim>\<open>Expression::getComplexity\<close> of the algebra library;
  \<^item> \<open>determineComplexity\<close>: \<^verbatim>\<open>AsymptoticBound::determineComplexity\<close>, the external
    asymptotic prover, with the complexity, the reduced complexity and the cost it returns;
  \<^item> \<open>chainRules\<close>: \<^verbatim>\<open>Chaining::chainRules\<close>, which returns the chained rule of two
    rules, if any (the store it is passed serves as variable manager);
  \<^item> \<open>hard\<close>: \<^verbatim>\<open>Timeout::hard()\<close>; \<open>hard env k\<close> is the answer to the poll number
    \<open>k\<close>, and every function that polls takes the number of the next poll and returns it
    advanced;
  \<^item> \<open>removeUnsatInitialRules\<close>: \<^verbatim>\<open>Pruning::removeUnsatInitialRules\<close>;
  \<^item> \<open>simplify\<close>: the part of \<^verbatim>\<open>Analysis::run\<close> between the test for an empty problem
    and the computation of the complexity (pre-processing, the loop of acceleration and
    chaining, removal of duplicate rules), which is built from the accelerator, the
    chainer and the pruning; \<open>None\<close> when it does not return;
  \<^item> \<open>FINAL_INFINITY_CHECK\<close>: the macro of that name;
  \<^item> \<open>defaultBound\<close>: the bound of a default-constructed result.
\<close>

record AsymptoticResult =
  checkCpx :: Complexity
  checkReducedCpx :: Complexity
  checkCost :: Expression

record Env =
  getComplexity :: "Expression \<Rightarrow> Complexity"
  determineComplexity :: "ITSProblem \<Rightarrow> GuardList \<Rightarrow> Expression \<Rightarrow> bool \<Rightarrow> AsymptoticResult"
  chainRules :: "Rule \<Rightarrow> Rule \<Rightarrow> Rule option"
  hard :: "nat \<Rightarrow> bool"
  removeUnsatInitialRules :: "ITSProblem \<Rightarrow> ITSProblem"
  simplify :: "ITSProblem \<Rightarrow> nat \<Rightarrow> (ITSProblem \<times> nat) option"
  FINAL_INFINITY_CHECK :: bool
  defaultBound :: Expression

section \<open>The analysis (analysis/analysis.cpp)\<close>

subsection \<open>The initial location\<close>

definition ensureProperInitialLocation :: "ITSProblem \<Rightarrow> bool \<times> ITSProblem" where
  "ensureProperInitialLocation its =
     (if hasTransitionsTo its (initialLocation its) then
        (let (newStart, its1) = addLocation its;
             its2 = addRule its1 (dummyRule newStart (initialLocation its1));
             its3 = setInitialLocation its2 newStart
         in (True, its3))
      else (False, its))"

definition isFullySimplified :: "ITSProblem \<Rightarrow> bool" where
  "isFullySimplified its =
     (\<forall>node \<in> set (locations its).
        node = initialLocation its \<or> getTransitionsFrom its node = [])"

subsection \<open>The complexity of a fully simplified problem\<close>

text \<open>
  The steps of a scan of the rules that leave the initial location, in the order in
  which the rules are looked at: a rule is skipped (\<^verbatim>\<open>continue\<close>), or the asymptotic
  prover is called for it.
\<close>

datatype scanStep = Skipped TransIdx | Checked TransIdx

text \<open>\<^verbatim>\<open>getMaxComplexity\<close>, the helper used when the asymptotic check is disabled.\<close>

fun getMaxComplexity :: "Env \<Rightarrow> ITSProblem \<Rightarrow> TransIdx list \<Rightarrow> RuntimeResult \<Rightarrow> RuntimeResult" where
  "getMaxComplexity env its [] res = res"
| "getMaxComplexity env its (rule # rest) res =
     (let cpxRule = getComplexity env (getCost (getRule its rule))
      in if cpxRule > cpx res
         then getMaxComplexity env its rest
                (res\<lparr>cpx := cpxRule, guard := getGuard (getRule its rule),
                     bound := getCost (getRule its rule)\<rparr>)
         else getMaxComplexity env its rest res)"

text \<open>
  The loop of \<^verbatim>\<open>getMaxRuntime\<close> over the rules, with the result so far, the number of
  the next poll of the hard timeout and the steps made so far. It ends at the end of the
  list, at the \<^verbatim>\<open>break\<close> after the result has reached \<open>Infty\<close>, or at the
  \<^verbatim>\<open>break\<close> after a hard timeout.
\<close>

fun getMaxRuntime_loop ::
  "Env \<Rightarrow> ITSProblem \<Rightarrow> TransIdx list \<Rightarrow> RuntimeResult \<Rightarrow> nat \<Rightarrow> scanStep list
     \<Rightarrow> RuntimeResult \<times> nat \<times> scanStep list" where
  "getMaxRuntime_loop env its [] res k steps = (res, k, steps)"
| "getMaxRuntime_loop env its (ruleIdx # rest) res k steps =
     (let rule = getRule its ruleIdx;
          cost = getCost rule;
          cpxUpperbound = getComplexity env cost;
          hasTempVar = (\<not> isInfSymbol cost \<and> hasVariableWith (isTempVar its) cost)
      in if cpxUpperbound \<le> cpx res \<and> \<not> hasTempVar
         then getMaxRuntime_loop env its rest res k (steps @ [Skipped ruleIdx])
         else
           (let checkRes = determineComplexity env its (getGuard rule) cost True
            in if checkCpx checkRes > cpx res
               then
                 (let res1 = res\<lparr>cpx := checkCpx checkRes, bound := checkCost checkRes,
                                 reducedCpx := checkReducedCpx checkRes, guard := getGuard rule\<rparr>
                  in if cpx res1 \<ge> Infty then (res1, k, steps @ [Checked ruleIdx])
                     else if hard env k then (res1, Suc k, steps @ [Checked ruleIdx])
                     else getMaxRuntime_loop env its rest res1 (Suc k) (steps @ [Checked ruleIdx]))
               else if hard env k then (res, Suc k, steps @ [Checked ruleIdx])
               else getMaxRuntime_loop env its rest res (Suc k) (steps @ [Checked ruleIdx])))"

definition getMaxRuntime :: "Env \<Rightarrow> ITSProblem \<Rightarrow> nat \<Rightarrow> RuntimeResult \<times> nat \<times> scanStep list" where
  "getMaxRuntime env its k =
     (let rules = getTransitionsFrom its (initialLocation its)
      in if \<not> FINAL_INFINITY_CHECK env
         then (getMaxComplexity env its rules (RuntimeResult_default (defaultBound env)), k, [])
         else getMaxRuntime_loop env its rules (RuntimeResult_default (defaultBound env)) k [])"


subsection \<open>The complexity after a timeout\<close>

text \<open>
  The inner loop of \<^verbatim>\<open>removeConstantPathsImpl\<close>: of the given rules, those whose cost
  has at most constant complexity are removed.
\<close>

fun removeConstantRules :: "Env \<Rightarrow> ITSProblem \<Rightarrow> TransIdx list \<Rightarrow> ITSProblem" where
  "removeConstantRules env its [] = its"
| "removeConstantRules env its (rule # rest) =
     (if getComplexity env (getCost (getRule its rule)) \<le> Const
      then removeConstantRules env (removeRule its rule) rest
      else removeConstantRules env its rest)"

text \<open>
  \<^verbatim>\<open>removeConstantPathsImpl\<close> and its loop over the successors of the current location \<open>cur\<close> (\<^verbatim>\<open>curr\<close> in the source), which are
  listed once, before the loop. The first argument bounds the depth of the recursion
  (\<open>None\<close>: the bound is reached); the store, the set of visited locations and the number
  of the next poll of the timeout are passed on and returned.
\<close>

fun removeConstantPathsImpl ::
  "nat \<Rightarrow> Env \<Rightarrow> ITSProblem \<Rightarrow> LocationIdx \<Rightarrow> LocationIdx set \<Rightarrow> nat
     \<Rightarrow> (bool \<times> ITSProblem \<times> LocationIdx set \<times> nat) option"
and removeConstantPathsSuccs ::
  "nat \<Rightarrow> Env \<Rightarrow> ITSProblem \<Rightarrow> LocationIdx \<Rightarrow> LocationIdx list \<Rightarrow> LocationIdx set \<Rightarrow> nat
     \<Rightarrow> (bool \<times> ITSProblem \<times> LocationIdx set \<times> nat) option" where
  "removeConstantPathsImpl 0 env its cur visited k = None"
| "removeConstantPathsImpl (Suc d) env its cur visited k =
     (if cur \<in> visited then Some (True, its, visited, k)
      else removeConstantPathsSuccs d env its cur (getSuccessorLocations its cur)
             (insert cur visited) k)"
| "removeConstantPathsSuccs d env its cur [] visited k =
     Some (getTransitionsFrom its cur = [], its, visited, k)"
| "removeConstantPathsSuccs d env its cur (next # rest) visited k =
     (if hard env k then Some (False, its, visited, Suc k)
      else
        (case removeConstantPathsImpl d env its next visited (Suc k) of
           None \<Rightarrow> None
         | Some (b, its1, visited1, k1) \<Rightarrow>
             removeConstantPathsSuccs d env
               (if b then removeConstantRules env its1 (getTransitionsFromTo its1 cur next)
                else its1)
               cur rest visited1 k1))"

text \<open>
  The locations that the search can reach are the initial location and the targets of
  rules; the recursion is never deeper than their number.
\<close>

definition targetLocations :: "ITSProblem \<Rightarrow> LocationIdx list" where
  "targetLocations its = concat (map (\<lambda>(idx, r). getRhsLocs r) (rules its))"

definition removeConstantPathsAfterTimeout ::
  "Env \<Rightarrow> ITSProblem \<Rightarrow> nat \<Rightarrow> (bool \<times> ITSProblem \<times> LocationIdx set \<times> nat) option" where
  "removeConstantPathsAfterTimeout env its k =
     removeConstantPathsImpl (Suc (Suc (length (targetLocations its)))) env its
       (initialLocation its) {} k"

text \<open>
  The scan at the head of the loop of \<^verbatim>\<open>getMaxPartialResult\<close>. It ends at the end of
  the list, or leaves the loop around it: \<^verbatim>\<open>goto done\<close> when the result has reached
  \<open>Infty\<close>, \<^verbatim>\<open>goto abort\<close> after a hard timeout. (\<^verbatim>\<open>getLinearRule\<close> is the lookup of a
  rule with one right-hand side; the model has one lookup.)
\<close>

datatype scanExit = ScanEnd | GotoDone | GotoAbort

fun getMaxPartialResult_scan ::
  "Env \<Rightarrow> ITSProblem \<Rightarrow> TransIdx list \<Rightarrow> RuntimeResult \<Rightarrow> nat \<Rightarrow> scanStep list
     \<Rightarrow> scanExit \<times> RuntimeResult \<times> nat \<times> scanStep list" where
  "getMaxPartialResult_scan env its [] res k steps = (ScanEnd, res, k, steps)"
| "getMaxPartialResult_scan env its (transIdx # rest) res k steps =
     (let rule = getRule its transIdx;
          cost = getCost rule;
          hasTempVar = (\<not> isInfSymbol cost \<and> hasVariableWith (isTempVar its) cost)
      in if getComplexity env cost \<le> max (cpx res) Const \<and> \<not> hasTempVar
         then getMaxPartialResult_scan env its rest res k (steps @ [Skipped transIdx])
         else
           (let checkRes = determineComplexity env its (getGuard rule) (getCost rule) True
            in if checkCpx checkRes > cpx res
               then
                 (let res1 = res\<lparr>cpx := checkCpx checkRes, bound := checkCost checkRes,
                                 reducedCpx := checkReducedCpx checkRes, guard := getGuard rule\<rparr>
                  in if cpx res1 \<ge> Infty then (GotoDone, res1, k, steps @ [Checked transIdx])
                     else if hard env k then (GotoAbort, res1, Suc k, steps @ [Checked transIdx])
                     else getMaxPartialResult_scan env its rest res1 (Suc k)
                            (steps @ [Checked transIdx]))
               else if hard env k then (GotoAbort, res, Suc k, steps @ [Checked transIdx])
               else getMaxPartialResult_scan env its rest res (Suc k)
                      (steps @ [Checked transIdx])))"

text \<open>
  Chaining from the start location, innermost loop first. Each loop returns whether it
  was left by \<^verbatim>\<open>goto abort\<close>, the store and the number of the next poll.
  \<open>chainSeconds\<close> chains \<open>first\<close> with every rule of the list and adds the chains;
  \<open>chainFirsts\<close> does so for every rule \<open>first\<close> of the list, with the rules that leave
  \<open>succ\<close> at that moment, and removes \<open>first\<close>; \<open>chainSuccs\<close> does so for every
  successor, with the rules from the initial location to it at that moment.
\<close>

fun chainSeconds ::
  "Env \<Rightarrow> ITSProblem \<Rightarrow> TransIdx \<Rightarrow> TransIdx list \<Rightarrow> nat \<Rightarrow> bool \<times> ITSProblem \<times> nat" where
  "chainSeconds env its first [] k = (False, its, k)"
| "chainSeconds env its first (second # rest) k =
     (let chained = chainRules env (getRule its first) (getRule its second);
          its1 = (case chained of Some c \<Rightarrow> addRule its c | None \<Rightarrow> its)
      in if hard env k then (True, its1, Suc k)
         else chainSeconds env its1 first rest (Suc k))"

fun chainFirsts ::
  "Env \<Rightarrow> ITSProblem \<Rightarrow> LocationIdx \<Rightarrow> TransIdx list \<Rightarrow> nat \<Rightarrow> bool \<times> ITSProblem \<times> nat" where
  "chainFirsts env its succ [] k = (False, its, k)"
| "chainFirsts env its succ (first # rest) k =
     (case chainSeconds env its first (getTransitionsFrom its succ) k of
        (True, its1, k1) \<Rightarrow> (True, its1, k1)
      | (False, its1, k1) \<Rightarrow> chainFirsts env (removeRule its1 first) succ rest k1)"

fun chainSuccs ::
  "Env \<Rightarrow> ITSProblem \<Rightarrow> LocationIdx \<Rightarrow> LocationIdx list \<Rightarrow> nat \<Rightarrow> bool \<times> ITSProblem \<times> nat" where
  "chainSuccs env its initial [] k = (False, its, k)"
| "chainSuccs env its initial (succ # rest) k =
     (case chainFirsts env its succ (getTransitionsFromTo its initial succ) k of
        (True, its1, k1) \<Rightarrow> (True, its1, k1)
      | (False, its1, k1) \<Rightarrow> chainSuccs env its1 initial rest k1)"

text \<open>
  The loop \<^verbatim>\<open>while (true)\<close> of \<^verbatim>\<open>getMaxPartialResult\<close>. It need not end: the value
  is \<open>None\<close> then. It returns the result together with the store as it has become, the
  number of the next poll and the steps of its scans.
\<close>

partial_function (option) getMaxPartialResult_loop ::
  "Env \<Rightarrow> LocationIdx \<Rightarrow> ITSProblem \<Rightarrow> RuntimeResult \<Rightarrow> nat \<Rightarrow> scanStep list
     \<Rightarrow> (RuntimeResult \<times> ITSProblem \<times> nat \<times> scanStep list) option" where
  "getMaxPartialResult_loop env initial its res k steps =
     (if hard env k then Some (res, its, Suc k, steps)
      else
        (case getMaxPartialResult_scan env its (getTransitionsFrom its initial) res (Suc k) steps of
           (exit, res1, k1, steps1) \<Rightarrow>
             if exit \<noteq> ScanEnd then Some (res1, its, k1, steps1)
             else
               (let succs = getSuccessorLocations its initial
                in if succs = [] then Some (res1, its, k1, steps1)
                   else
                     (case chainSuccs env its initial succs k1 of
                        (aborted, its2, k2) \<Rightarrow>
                          if aborted then Some (res1, its2, k2, steps1)
                          else getMaxPartialResult_loop env initial its2 res1 k2 steps1))))"

declare getMaxPartialResult_loop.simps [code]

definition getMaxPartialResult ::
  "Env \<Rightarrow> ITSProblem \<Rightarrow> nat \<Rightarrow> (RuntimeResult \<times> ITSProblem \<times> nat \<times> scanStep list) option" where
  "getMaxPartialResult env its k =
     getMaxPartialResult_loop env (initialLocation its) its
       (RuntimeResult_default (defaultBound env)) k []"

subsection \<open>The main algorithm\<close>

text \<open>
  The end of \<^verbatim>\<open>Analysis::run\<close>: the complexity of a problem that is not fully
  simplified is a partial result, found after the removal of constant paths; the
  complexity of a fully simplified problem is found by \<open>getMaxRuntime\<close>.
\<close>

definition computeComplexity :: "Env \<Rightarrow> ITSProblem \<Rightarrow> nat \<Rightarrow> RuntimeResult option" where
  "computeComplexity env its k =
     (if \<not> isFullySimplified its
      then (case removeConstantPathsAfterTimeout env its k of
              None \<Rightarrow> None
            | Some (b, its1, visited, k1) \<Rightarrow> map_option fst (getMaxPartialResult env its1 k1))
      else Some (fst (getMaxRuntime env its k)))"

text \<open>
  \<^verbatim>\<open>Analysis::run\<close>, with the proof output and the dot output left out. \<open>None\<close>: the
  simplification or the search for a partial result does not return.
\<close>

definition run :: "Env \<Rightarrow> ITSProblem \<Rightarrow> nat \<Rightarrow> RuntimeResult option" where
  "run env its0 k0 =
     (let its1 = snd (ensureProperInitialLocation its0);
          its2 = removeUnsatInitialRules env its1;
          runtime = RuntimeResult_default (defaultBound env)
      in if isEmpty its2 then Some runtime
         else
           (case simplify env its2 k0 of
              None \<Rightarrow> None
            | Some (its3, k1) \<Rightarrow>
                (case computeComplexity env its3 k1 of
                   None \<Rightarrow> None
                 | Some runtime1 \<Rightarrow>
                     Some (if cpx runtime1 = Unknown
                           then runtime1\<lparr>cpx := Const, bound := Numeric 1, guard := []\<rparr>
                           else runtime1))))"

subsection \<open>The scan as a predicate on its steps\<close>

text \<open>
  The scan of \<open>getMaxRuntime\<close>, as a predicate on the steps of a scan and its result:
  \<open>cheap r\<close> is the complexity of the cost of rule \<open>r\<close>, \<open>temp r\<close> says that the cost
  mentions a temporary variable, \<open>prover r\<close> is the answer of the asymptotic prover for
  \<open>r\<close>, \<open>guardOf r\<close> the guard of \<open>r\<close>, \<open>fired k\<close> the answer to the poll number \<open>k\<close> of
  the hard timeout, \<open>best\<close> the current best result and \<open>k\<close> the number of the next poll.
  There is one step for each rule of the list, in order, until the scan stops: the
  prover is called if and only if \<open>cheap r\<close> exceeds the class of the current best or
  \<open>temp r\<close>; after a call the best is replaced, by the answer of the prover and the
  guard of the rule, only if the class of the answer is strictly greater; the scan stops
  after a call when the best has reached \<open>Infty\<close> or the poll that follows the call
  fires, and at the end of the list. \<open>final\<close> is the best when the scan stops.
\<close>

fun scanAsAmended ::
  "(TransIdx \<Rightarrow> Complexity) \<Rightarrow> (TransIdx \<Rightarrow> bool) \<Rightarrow> (TransIdx \<Rightarrow> AsymptoticResult)
     \<Rightarrow> (TransIdx \<Rightarrow> GuardList) \<Rightarrow> (nat \<Rightarrow> bool)
     \<Rightarrow> RuntimeResult \<Rightarrow> nat \<Rightarrow> TransIdx list \<Rightarrow> scanStep list \<Rightarrow> RuntimeResult \<Rightarrow> bool" where
  "scanAsAmended cheap temp prover guardOf fired best k [] steps final =
     (steps = [] \<and> final = best)"
| "scanAsAmended cheap temp prover guardOf fired best k (r # rs) [] final = False"
| "scanAsAmended cheap temp prover guardOf fired best k (r # rs) (s # steps) final =
     (if cheap r > cpx best \<or> temp r
      then s = Checked r
           \<and> (let best' = (if checkCpx (prover r) > cpx best
                            then \<lparr>cpx = checkCpx (prover r), bound = checkCost (prover r),
                                  reducedCpx = checkReducedCpx (prover r), guard = guardOf r\<rparr>
                            else best)
              in if cpx best' \<ge> Infty \<or> fired k then steps = [] \<and> final = best'
                 else scanAsAmended cheap temp prover guardOf fired best' (Suc k) rs steps final)
      else s = Skipped r
           \<and> scanAsAmended cheap temp prover guardOf fired best k rs steps final)"

text \<open>
  The result of \<open>getMaxRuntime\<close> in a build without the asymptotic check: the first
  rule of the list whose cost has the greatest complexity gives the class, the guard and
  the bound (its cost), if that complexity is above the class of \<open>best\<close>.
\<close>

fun maxComplexityAsAmended ::
  "(TransIdx \<Rightarrow> Complexity) \<Rightarrow> (TransIdx \<Rightarrow> Expression) \<Rightarrow> (TransIdx \<Rightarrow> GuardList)
     \<Rightarrow> RuntimeResult \<Rightarrow> TransIdx list \<Rightarrow> RuntimeResult" where
  "maxComplexityAsAmended cheap costOf guardOf best [] = best"
| "maxComplexityAsAmended cheap costOf guardOf best (r # rs) =
     maxComplexityAsAmended cheap costOf guardOf
       (if cheap r > cpx best
        then \<lparr>cpx = cheap r, bound = costOf r, reducedCpx = reducedCpx best, guard = guardOf r\<rparr>
        else best) rs"

text \<open>The result after the prover's answer \<open>checkRes\<close> for a rule with guard \<open>g\<close>.\<close>

definition replaceBest :: "RuntimeResult \<Rightarrow> AsymptoticResult \<Rightarrow> GuardList \<Rightarrow> RuntimeResult" where
  "replaceBest res checkRes g =
     (if checkCpx checkRes > cpx res
      then res\<lparr>cpx := checkCpx checkRes, bound := checkCost checkRes,
               reducedCpx := checkReducedCpx checkRes, guard := g\<rparr>
      else res)"


subsection \<open>Examples\<close>

text \<open>
  Collaborators for the examples: the complexity of a constant is \<open>Const\<close>, of the
  cost symbol \<open>Infty\<close>, of anything else \<open>Poly 1\<close>; the prover confirms this class;
  there is no timeout; nothing is chained or removed.
\<close>

definition exampleComplexity :: "Expression \<Rightarrow> Complexity" where
  "exampleComplexity e =
     (case e of Numeric k \<Rightarrow> Const | Symbol InfSymbol \<Rightarrow> Infty | _ \<Rightarrow> Poly 1)"

definition exampleEnv :: Env where
  "exampleEnv =
     \<lparr>getComplexity = exampleComplexity,
      determineComplexity = (\<lambda>its g c final.
         \<lparr>checkCpx = exampleComplexity c, checkReducedCpx = exampleComplexity c, checkCost = c\<rparr>),
      chainRules = (\<lambda>r1 r2. None),
      hard = (\<lambda>k. False),
      removeUnsatInitialRules = (\<lambda>its. its),
      simplify = (\<lambda>its k. Some (its, k)),
      FINAL_INFINITY_CHECK = True,
      defaultBound = Numeric 0\<rparr>"

text \<open>A linear rule from \<open>a\<close> to \<open>b\<close> with cost \<open>c\<close>, no guard and no update.\<close>

definition plainRule :: "LocationIdx \<Rightarrow> LocationIdx \<Rightarrow> Expression \<Rightarrow> Rule" where
  "plainRule a b c = \<lparr>getLhsLoc = a, getGuard = [], getCost = c, getRhss = [(b, [])]\<rparr>"

text \<open>Three rules from the initial location 0 to location 1, with costs \<open>1\<close>, \<open>x\<close>, \<open>5\<close>.\<close>

definition exampleFlat :: ITSProblem where
  "exampleFlat =
     \<lparr>rules = [(0, plainRule 0 1 (Numeric 1)),
               (1, plainRule 0 1 (Symbol (Var 0))),
               (2, plainRule 0 1 (Numeric 5))],
      nextTransIdx = 3, locations = [0, 1], nextUnusedLocation = 2,
      initialLocation = 0, temporaryVariables = {}\<rparr>"

text \<open>
  A hard timeout that has passed, and a build without the asymptotic check.
\<close>

definition exampleEnvTimeout :: Env where
  "exampleEnvTimeout = exampleEnv\<lparr>hard := (\<lambda>k. True)\<rparr>"

definition exampleEnvNoCheck :: Env where
  "exampleEnvNoCheck = exampleEnv\<lparr>FINAL_INFINITY_CHECK := False\<rparr>"

text \<open>
  Two rules of linear cost from the initial location: the cost of the first is \<open>x0\<close>,
  the cost of the second is the temporary variable \<open>x1\<close>, with the guard \<open>x1 > 0\<close>.
\<close>

definition exampleTies :: ITSProblem where
  "exampleTies =
     \<lparr>rules = [(0, plainRule 0 1 (Symbol (Var 0))),
               (1, \<lparr>getLhsLoc = 0,
                    getGuard = [Relational relation_greater (Symbol (Var 1)) (Numeric 0)],
                    getCost = Symbol (Var 1), getRhss = [(1, [])]\<rparr>)],
      nextTransIdx = 2, locations = [0, 1], nextUnusedLocation = 2,
      initialLocation = 0, temporaryVariables = {1}\<rparr>"

text \<open>A prover that never proves a bound.\<close>

definition exampleEnvUnknown :: Env where
  "exampleEnvUnknown =
     exampleEnv\<lparr>determineComplexity := (\<lambda>its g c final.
        \<lparr>checkCpx = Unknown, checkReducedCpx = Unknown, checkCost = c\<rparr>)\<rparr>"

text \<open>A problem without rules, and one whose only rule is a loop at the initial location.\<close>

definition exampleEmpty :: ITSProblem where
  "exampleEmpty =
     \<lparr>rules = [], nextTransIdx = 0, locations = [0], nextUnusedLocation = 1,
      initialLocation = 0, temporaryVariables = {}\<rparr>"

definition exampleLoopAtStart :: ITSProblem where
  "exampleLoopAtStart =
     \<lparr>rules = [(0, plainRule 0 0 (Numeric 1))], nextTransIdx = 1, locations = [0],
      nextUnusedLocation = 1, initialLocation = 0, temporaryVariables = {}\<rparr>"


subsection \<open>The scan of the partial result\<close>

text \<open>
  The scan at the head of the loop of \<open>getMaxPartialResult\<close>, as a predicate on its
  steps, its result and the way it ends, with the arguments of \<open>scanAsAmended\<close>: the
  prover is called for a rule if and only if the complexity of its cost exceeds both the
  class of the current best and \<open>Const\<close>, or its cost mentions a temporary variable;
  after a call the best is replaced, by the answer of the prover and the guard of the
  rule, only if the class of the answer is strictly greater; the scan leaves the loop by
  \<^verbatim>\<open>goto done\<close> after a call when the best has reached \<open>Infty\<close>, by \<^verbatim>\<open>goto abort\<close>
  when the poll that follows a call fires, and ends at the end of the list.
\<close>

fun partialScanAsAmended ::
  "(TransIdx \<Rightarrow> Complexity) \<Rightarrow> (TransIdx \<Rightarrow> bool) \<Rightarrow> (TransIdx \<Rightarrow> AsymptoticResult)
     \<Rightarrow> (TransIdx \<Rightarrow> GuardList) \<Rightarrow> (nat \<Rightarrow> bool)
     \<Rightarrow> RuntimeResult \<Rightarrow> nat \<Rightarrow> TransIdx list \<Rightarrow> scanStep list \<Rightarrow> RuntimeResult \<Rightarrow> scanExit
     \<Rightarrow> bool" where
  "partialScanAsAmended cheap temp prover guardOf fired best k [] steps final exit =
     (steps = [] \<and> final = best \<and> exit = ScanEnd)"
| "partialScanAsAmended cheap temp prover guardOf fired best k (r # rs) [] final exit = False"
| "partialScanAsAmended cheap temp prover guardOf fired best k (r # rs) (s # steps) final exit =
     (if cheap r > max (cpx best) Const \<or> temp r
      then s = Checked r
           \<and> (let best' = (if checkCpx (prover r) > cpx best
                            then \<lparr>cpx = checkCpx (prover r), bound = checkCost (prover r),
                                  reducedCpx = checkReducedCpx (prover r), guard = guardOf r\<rparr>
                            else best)
              in if cpx best' \<ge> Infty then steps = [] \<and> final = best' \<and> exit = GotoDone
                 else if fired k then steps = [] \<and> final = best' \<and> exit = GotoAbort
                 else partialScanAsAmended cheap temp prover guardOf fired best' (Suc k) rs
                        steps final exit)
      else s = Skipped r
           \<and> partialScanAsAmended cheap temp prover guardOf fired best k rs steps final exit)"

text \<open>
  A chainer for the examples (guards appended, costs added, the targets of the second
  rule), and a problem with two rules in a row, of costs \<open>1\<close> and \<open>x\<close>.
\<close>

definition exampleEnvChain :: Env where
  "exampleEnvChain =
     exampleEnv\<lparr>chainRules := (\<lambda>r1 r2.
        Some \<lparr>getLhsLoc = getLhsLoc r1, getGuard = getGuard r1 @ getGuard r2,
              getCost = Add (getCost r1) (getCost r2), getRhss = getRhss r2\<rparr>)\<rparr>"

definition exampleTwoStep :: ITSProblem where
  "exampleTwoStep =
     \<lparr>rules = [(0, plainRule 0 1 (Numeric 1)),
               (1, plainRule 1 2 (Symbol (Var 0)))],
      nextTransIdx = 2, locations = [0, 1, 2], nextUnusedLocation = 3,
      initialLocation = 0, temporaryVariables = {}\<rparr>"


text \<open>
  A problem with a rule from the initial location 0 to location 1 and two rules from
  location 1 to location 2.
\<close>

definition exampleFork :: ITSProblem where
  "exampleFork =
     \<lparr>rules = [(0, plainRule 0 1 (Numeric 1)),
               (1, plainRule 1 2 (Symbol (Var 0))),
               (2, plainRule 1 2 (Numeric 5))],
      nextTransIdx = 3, locations = [0, 1, 2], nextUnusedLocation = 3,
      initialLocation = 0, temporaryVariables = {}\<rparr>"
subsection \<open>Relations between stores\<close>

text \<open>
  \<open>its'\<close> is \<open>its\<close> without some of its rules, each of them with a cost of at most
  constant complexity.
\<close>

definition onlyConstantRemoved :: "Env \<Rightarrow> ITSProblem \<Rightarrow> ITSProblem \<Rightarrow> bool" where
  "onlyConstantRemoved env its its' =
     ((\<exists>P. its' = its\<lparr>rules := filter P (rules its)\<rparr>)
      \<and> (\<forall>(idx, r) \<in> set (rules its).
            (idx, r) \<notin> set (rules its') \<longrightarrow> getComplexity env (getCost r) \<le> Const))"

text \<open>
  The rule indices of a store are in order: strictly increasing along the list of rules,
  and below the next index.
\<close>

definition idxOk :: "ITSProblem \<Rightarrow> bool" where
  "idxOk its =
     (sorted_wrt (<) (map fst (rules its))
      \<and> (\<forall>x \<in> set (rules its). fst x < nextTransIdx its))"

text \<open>
  \<open>r\<close> is the chain of a rule that leaves the location \<open>initial\<close> with a rule that leaves
  one of its targets.
\<close>

definition isChain :: "Env \<Rightarrow> LocationIdx \<Rightarrow> Rule \<Rightarrow> bool" where
  "isChain env initial r =
     (\<exists>r1 r2. chainRules env r1 r2 = Some r \<and> getLhsLoc r1 = initial
        \<and> getLhsLoc r2 \<in> set (getRhsLocs r1))"

text \<open>
  \<open>its1\<close> has come from \<open>its\<close> by chaining from the location \<open>initial\<close>: its indices
  are in order; a rule of \<open>its1\<close> with an index of \<open>its\<close> is a rule of \<open>its\<close>; the rules of
  \<open>its\<close> that do not leave \<open>initial\<close> are rules of \<open>its1\<close>; every rule of \<open>its1\<close> with a
  new index is a chain.
\<close>

definition chainedFrom :: "Env \<Rightarrow> LocationIdx \<Rightarrow> ITSProblem \<Rightarrow> ITSProblem \<Rightarrow> bool" where
  "chainedFrom env initial its its1 =
     (idxOk its1 \<and> nextTransIdx its \<le> nextTransIdx its1
      \<and> (\<forall>x \<in> set (rules its1). fst x < nextTransIdx its \<longrightarrow> x \<in> set (rules its))
      \<and> (\<forall>x \<in> set (rules its). getLhsLoc (snd x) \<noteq> initial \<longrightarrow> x \<in> set (rules its1))
      \<and> (\<forall>x \<in> set (rules its1). nextTransIdx its \<le> fst x \<longrightarrow> isChain env initial (snd x)))"


subsection \<open>One level of chaining from the start location\<close>

text \<open>
  One level of chaining from the location \<open>initial\<close>, as a function of the store: for
  every successor \<open>succ\<close> of \<open>initial\<close> (the successors are listed once, before the
  level), for every rule \<open>first\<close> that leads from \<open>initial\<close> to \<open>succ\<close> when the turn of
  \<open>succ\<close> comes, the chains of \<open>first\<close> with the rules that leave \<open>succ\<close> at that moment
  are added to the store, as far as there is a chain, and then \<open>first\<close> is deleted.
\<close>

definition chainFirstAsAmended :: "Env \<Rightarrow> LocationIdx \<Rightarrow> ITSProblem \<Rightarrow> TransIdx \<Rightarrow> ITSProblem" where
  "chainFirstAsAmended env succ its first =
     removeRule
       (foldl addRule its
          (List.map_filter (\<lambda>second. chainRules env (getRule its first) (getRule its second))
             (getTransitionsFrom its succ)))
       first"

definition chainSuccAsAmended :: "Env \<Rightarrow> LocationIdx \<Rightarrow> ITSProblem \<Rightarrow> LocationIdx \<Rightarrow> ITSProblem" where
  "chainSuccAsAmended env initial its succ =
     foldl (chainFirstAsAmended env succ) its (getTransitionsFromTo its initial succ)"

definition chainingFromStartAsAmended :: "Env \<Rightarrow> LocationIdx \<Rightarrow> ITSProblem \<Rightarrow> ITSProblem" where
  "chainingFromStartAsAmended env initial its =
     foldl (chainSuccAsAmended env initial) its (getSuccessorLocations its initial)"

subsection \<open>The store without the constant rules between two locations\<close>

section \<open>Iterated update and cost (meter/recurrence.cpp)\<close>

text \<open>
  Substitution of expressions for symbols (\<^verbatim>\<open>ex.subs\<close> with a map or with one
  equation \<^verbatim>\<open>symbol == expression\<close>): every occurrence of a symbol of the map is
  replaced, and the replacement is not substituted again.
\<close>

fun subs :: "(ExprSymbol \<rightharpoonup> Expression) \<Rightarrow> Expression \<Rightarrow> Expression" where
  "subs m (Numeric k) = Numeric k"
| "subs m (Symbol s) = (case m s of Some e \<Rightarrow> e | None \<Rightarrow> Symbol s)"
| "subs m (PurrsX e) = PurrsX (subs m e)"
| "subs m (Add a b) = Add (subs m a) (subs m b)"
| "subs m (Mul a b) = Mul (subs m a) (subs m b)"
| "subs m (Relational op a b) = Relational op (subs m a) (subs m b)"

text \<open>
  The indices that the variable manager has for the variable names of an expression
  (\<^verbatim>\<open>getVarIdx\<close> of each of \<^verbatim>\<open>getVariableNames\<close>). The right-hand sides of an update
  are over the variables of the variable manager.
\<close>

fun getVarIdxs :: "Expression \<Rightarrow> VariableIdx list" where
  "getVarIdxs (Numeric k) = []"
| "getVarIdxs (Symbol (Var v)) = [v]"
| "getVarIdxs (Symbol s) = []"
| "getVarIdxs (PurrsX e) = getVarIdxs e"
| "getVarIdxs (Add a b) = getVarIdxs a @ getVarIdxs b"
| "getVarIdxs (Mul a b) = getVarIdxs a @ getVarIdxs b"
| "getVarIdxs (Relational op a b) = getVarIdxs a @ getVarIdxs b"

text \<open>
  Modelled from the spec: the recurrence solver (the library PURRS) is not among the
  sources. \<open>solve rhs i init\<close> is its answer for the recurrence \<open>x(n) = rhs\<close>, where
  \<open>rhs\<close> is an expression in \<open>x(n - 1)\<close> and \<open>n\<close>, with the initial condition
  \<open>x(i) = init\<close>: the exact solution as an expression in \<open>n\<close>, or \<open>None\<close> when it finds
  none or throws.
\<close>

type_synonym Solver = "Expression \<Rightarrow> nat \<Rightarrow> Expression \<Rightarrow> Expression option"

text \<open>The members of a \<^verbatim>\<open>Recurrence\<close> object that change.\<close>

record Recurrence =
  knownPreRecurrences :: "ExprSymbol \<rightharpoonup> Expression"
  addGuard :: GuardList

definition Recurrence_new :: Recurrence where
  "Recurrence_new = \<lparr>knownPreRecurrences = Map.empty, addGuard = []\<rparr>"

text \<open>
  The first \<^verbatim>\<open>for\<close> loop in the body of the loop of \<^verbatim>\<open>dependencyOrder\<close>: a variable
  that is not yet ordered is appended to the ordering unless the right-hand side of its
  update mentions another updated variable that is not yet ordered.
\<close>

fun orderPass ::
  "UpdateMap \<Rightarrow> UpdateMap \<Rightarrow> VariableIdx set \<Rightarrow> VariableIdx list \<Rightarrow> bool
     \<Rightarrow> VariableIdx set \<times> VariableIdx list \<times> bool" where
  "orderPass update [] orderedVars orderList changed = (orderedVars, orderList, changed)"
| "orderPass update (up # rest) orderedVars orderList changed =
     (if fst up \<in> orderedVars then orderPass update rest orderedVars orderList changed
      else if list_ex (\<lambda>vi. vi \<noteq> fst up \<and> vi \<in> fst ` set update \<and> vi \<notin> orderedVars)
                (getVarIdxs (snd up))
        then orderPass update rest orderedVars orderList changed
      else orderPass update rest (insert (fst up) orderedVars) (orderList @ [fst up]) True)"

text \<open>
  The second \<^verbatim>\<open>for\<close> loop: the first variable that is not ordered becomes the target;
  for every other one, the equation of the target and the variable is appended to
  \<^verbatim>\<open>addGuard\<close> and the variable is mapped to the target.
\<close>

fun breakCycle ::
  "VariableIdx set \<Rightarrow> UpdateMap \<Rightarrow> ExprSymbol option \<Rightarrow> (ExprSymbol \<rightharpoonup> Expression) \<Rightarrow> GuardList
     \<Rightarrow> (ExprSymbol \<rightharpoonup> Expression) \<times> GuardList" where
  "breakCycle orderedVars [] target subsMap guards = (subsMap, guards)"
| "breakCycle orderedVars (up # rest) target subsMap guards =
     (if fst up \<in> orderedVars then breakCycle orderedVars rest target subsMap guards
      else
        (case target of
           None \<Rightarrow> breakCycle orderedVars rest (Some (Var (fst up))) subsMap guards
         | Some t \<Rightarrow>
             breakCycle orderedVars rest target
               (subsMap(Var (fst up) \<mapsto> Symbol t))
               (guards @ [Relational relation_equal (Symbol t) (Symbol (Var (fst up)))])))"

text \<open>
  The loop of \<^verbatim>\<open>dependencyOrder\<close>, on the update (a copy that the loop changes), the
  ordered variables as a set and as a list, and \<^verbatim>\<open>addGuard\<close>.
\<close>

partial_function (option) dependencyOrder_loop ::
  "UpdateMap \<Rightarrow> VariableIdx set \<Rightarrow> VariableIdx list \<Rightarrow> GuardList
     \<Rightarrow> (VariableIdx list \<times> UpdateMap \<times> GuardList) option" where
  "dependencyOrder_loop update orderedVars orderList guards =
     (if length orderList < length update then
        (case orderPass update update orderedVars orderList False of
           (orderedVars1, orderList1, changed) \<Rightarrow>
             if changed then dependencyOrder_loop update orderedVars1 orderList1 guards
             else
               (case breakCycle orderedVars1 update None Map.empty guards of
                  (subsMap, guards1) \<Rightarrow>
                    dependencyOrder_loop (map (\<lambda>up. (fst up, subs subsMap (snd up))) update)
                      orderedVars1 orderList1 guards1))
      else Some (orderList, update, guards))"

declare dependencyOrder_loop.simps [code]

definition dependencyOrder ::
  "Recurrence \<Rightarrow> UpdateMap \<Rightarrow> (VariableIdx list \<times> UpdateMap \<times> Recurrence) option" where
  "dependencyOrder rec update =
     (case dependencyOrder_loop update {} [] (addGuard rec) of
        None \<Rightarrow> None
      | Some (orderList, update1, guards1) \<Rightarrow> Some (orderList, update1, rec\<lparr>addGuard := guards1\<rparr>))"

text \<open>\<^verbatim>\<open>Purrs::x(Purrs::Recurrence::n - 1)\<close> (\<^verbatim>\<open>last\<close> in the source) and \<^verbatim>\<open>ginacN\<close>.\<close>

definition lastX :: Expression where
  "lastX = PurrsX (minus (Symbol PurrsN) (Numeric 1))"

definition ginacN :: Expression where
  "ginacN = Symbol PurrsN"

definition findUpdateRecurrence :: "Solver \<Rightarrow> Expression \<Rightarrow> ExprSymbol \<Rightarrow> Expression option" where
  "findUpdateRecurrence solve update target =
     (let rhs = subs [target \<mapsto> lastX] update
      in solve rhs 1 update)"

definition findCostRecurrence :: "Solver \<Rightarrow> Recurrence \<Rightarrow> Expression \<Rightarrow> Expression option" where
  "findCostRecurrence solve rec cost =
     (let cost1 = subs (knownPreRecurrences rec) cost;
          rhs = Add lastX cost1
      in solve rhs 0 (Numeric 0))"

text \<open>\<^verbatim>\<open>newUpdate[vi] = ...\<close> on a map that is kept in the order of its keys.\<close>

fun mapSet :: "UpdateMap \<Rightarrow> VariableIdx \<Rightarrow> Expression \<Rightarrow> UpdateMap" where
  "mapSet [] v e = [(v, e)]"
| "mapSet (up # rest) v e =
     (if v = fst up then (v, e) # rest
      else if v < fst up then (v, e) # up # rest
      else up # mapSet rest v e)"

text \<open>
  The loop of \<^verbatim>\<open>calcIteratedUpdate\<close> over the ordering. The result is the new update,
  or \<open>None\<close> for \<^verbatim>\<open>return false\<close>, with the state of the \<^verbatim>\<open>Recurrence\<close> object.
\<close>

fun calcIteratedUpdate_loop ::
  "Solver \<Rightarrow> UpdateMap \<Rightarrow> Expression \<Rightarrow> VariableIdx list \<Rightarrow> Recurrence \<Rightarrow> UpdateMap
     \<Rightarrow> error + (UpdateMap option \<times> Recurrence)" where
  "calcIteratedUpdate_loop solve update meterfunc [] rec newUpdate = Inr (Some newUpdate, rec)"
| "calcIteratedUpdate_loop solve update meterfunc (vi # rest) rec newUpdate =
     (case map_of update vi of
        None \<Rightarrow> Inl OutOfRange
      | Some rhs \<Rightarrow>
          (let target = Var vi;
               todo = subs (knownPreRecurrences rec) rhs
           in case findUpdateRecurrence solve todo target of
                None \<Rightarrow> Inr (None, rec)
              | Some res \<Rightarrow>
                  calcIteratedUpdate_loop solve update meterfunc rest
                    (rec\<lparr>knownPreRecurrences := (knownPreRecurrences rec)
                            (target \<mapsto> subs [PurrsN \<mapsto> minus ginacN (Numeric 1)] res)\<rparr>)
                    (mapSet newUpdate vi (subs [PurrsN \<mapsto> meterfunc] res))))"

text \<open>
  \<^verbatim>\<open>calcIteratedUpdate\<close>. The outer \<open>None\<close>: \<^verbatim>\<open>dependencyOrder\<close> does not return.
\<close>

definition calcIteratedUpdate ::
  "Solver \<Rightarrow> Recurrence \<Rightarrow> UpdateMap \<Rightarrow> Expression \<Rightarrow> UpdateMap
     \<Rightarrow> (error + (UpdateMap option \<times> Recurrence)) option" where
  "calcIteratedUpdate solve rec oldUpdate meterfunc newUpdate =
     (if newUpdate \<noteq> [] then Some (Inl AssertionFailed)
      else
        (case dependencyOrder rec oldUpdate of
           None \<Rightarrow> None
         | Some (depOrder, update, rec1) \<Rightarrow>
             if length depOrder \<noteq> length update then Some (Inl AssertionFailed)
             else Some (calcIteratedUpdate_loop solve update meterfunc depOrder rec1 newUpdate)))"

definition calcIteratedCost :: "Solver \<Rightarrow> Recurrence \<Rightarrow> Expression \<Rightarrow> Expression \<Rightarrow> Expression option" where
  "calcIteratedCost solve rec cost meterfunc =
     (case findCostRecurrence solve rec cost of
        None \<Rightarrow> None
      | Some costRec \<Rightarrow> Some (subs [PurrsN \<mapsto> meterfunc] costRec))"

text \<open>
  Modelled from the spec: \<^verbatim>\<open>LinearRule\<close> (its/rule.h) is not among the sources; it is a
  rule with one right-hand side.
\<close>

record LinearRule =
  linLhsLoc :: LocationIdx
  linGuard :: GuardList
  linCost :: Expression
  linRhsLoc :: LocationIdx
  linUpdate :: UpdateMap

text \<open>
  \<^verbatim>\<open>calcIterated\<close>: the value returned and the rule, which is passed by reference.
\<close>

definition calcIterated ::
  "Solver \<Rightarrow> LinearRule \<Rightarrow> Expression \<Rightarrow> (error + (bool \<times> LinearRule)) option" where
  "calcIterated solve rule meterfunc =
     (case calcIteratedUpdate solve Recurrence_new (linUpdate rule) meterfunc [] of
        None \<Rightarrow> None
      | Some (Inl e) \<Rightarrow> Some (Inl e)
      | Some (Inr (None, rec)) \<Rightarrow> Some (Inr (False, rule))
      | Some (Inr (Some newUpdate, rec)) \<Rightarrow>
          (case calcIteratedCost solve rec (linCost rule) meterfunc of
             None \<Rightarrow> Some (Inr (False, rule))
           | Some newCost \<Rightarrow>
               Some (Inr (True, rule\<lparr>linUpdate := newUpdate, linCost := newCost,
                                     linGuard := linGuard rule @ addGuard rec\<rparr>))))"

subsection \<open>Readiness of an update\<close>

text \<open>
  An entry of an update is ready when its variable is not ordered and its right-hand
  side mentions no other updated variable that is not ordered: the first loop of
  \<open>dependencyOrder\<close> appends the variables of such entries.
\<close>

definition ready :: "UpdateMap \<Rightarrow> VariableIdx set \<Rightarrow> VariableIdx \<times> Expression \<Rightarrow> bool" where
  "ready update orderedVars up =
     (fst up \<notin> orderedVars
      \<and> \<not> list_ex (\<lambda>vi. vi \<noteq> fst up \<and> vi \<in> fst ` set update \<and> vi \<notin> orderedVars)
            (getVarIdxs (snd up)))"

subsection \<open>Examples for the recurrences\<close>

text \<open>
  A solver for three kinds of recurrences, where \<open>c\<close> mentions neither \<open>x\<close> nor \<open>n\<close>:
  \<open>x(n) = c\<close> with the initial condition \<open>x(i) = c\<close> has the solution \<open>c\<close>;
  \<open>x(n) = x(n - 1)\<close> with \<open>x(i) = c\<close> has the solution \<open>c\<close>; and
  \<open>x(n) = x(n - 1) + c\<close> with \<open>x(0) = 0\<close> has the solution \<open>n * c\<close>.
\<close>

fun mentionsPurrs :: "Expression \<Rightarrow> bool" where
  "mentionsPurrs (Numeric k) = False"
| "mentionsPurrs (Symbol s) = (s = PurrsN)"
| "mentionsPurrs (PurrsX e) = True"
| "mentionsPurrs (Add a b) = (mentionsPurrs a \<or> mentionsPurrs b)"
| "mentionsPurrs (Mul a b) = (mentionsPurrs a \<or> mentionsPurrs b)"
| "mentionsPurrs (Relational op a b) = (mentionsPurrs a \<or> mentionsPurrs b)"

definition exampleSolver :: Solver where
  "exampleSolver rhs i init =
     (if \<not> mentionsPurrs rhs \<and> init = rhs then Some rhs
      else if rhs = PurrsX (minus (Symbol PurrsN) (Numeric 1)) \<and> \<not> mentionsPurrs init
        then Some init
      else
        (case rhs of
           Add (PurrsX a) c \<Rightarrow>
             if a = minus (Symbol PurrsN) (Numeric 1) \<and> \<not> mentionsPurrs c
                \<and> i = 0 \<and> init = Numeric 0
             then Some (Mul (Symbol PurrsN) c)
             else None
         | _ \<Rightarrow> None))"

text \<open>The loop with the update \<open>x0 := 5, x1 := x0\<close>.\<close>

definition exampleConstThenCopy :: LinearRule where
  "exampleConstThenCopy =
     \<lparr>linLhsLoc = 1,
      linGuard = [Relational relation_greater (Symbol (Var 2)) (Numeric 0)],
      linCost = Numeric 1, linRhsLoc = 1,
      linUpdate = [(0, Numeric 5), (1, Symbol (Var 0))]\<rparr>"


subsection \<open>The result of the dependency order\<close>

text \<open>
  The entries of an update whose variables are not in the list \<open>pre\<close>, in the order of
  the update.
\<close>

definition unresolved :: "UpdateMap \<Rightarrow> VariableIdx list \<Rightarrow> UpdateMap" where
  "unresolved update pre = filter (\<lambda>up. fst up \<notin> set pre) update"

text \<open>
  \<open>pre\<close> lists the variables that can be ordered without breaking a cycle: it lists
  updated variables without repetition, each of them ready once the variables before it
  are ordered (its right-hand side mentions no other updated variable but these), and no
  entry of the update is ready once all of \<open>pre\<close> is ordered.
\<close>

definition resolvedInOrder :: "UpdateMap \<Rightarrow> VariableIdx list \<Rightarrow> bool" where
  "resolvedInOrder update pre =
     (distinct pre \<and> set pre \<subseteq> fst ` set update
      \<and> (\<forall>i < length pre. \<exists>up \<in> set update. fst up = pre ! i
                                  \<and> ready update (set (take i pre)) up)
      \<and> (\<forall>up \<in> set update. \<not> ready update (set pre) up))"

text \<open>
  The cycle among the entries \<open>un\<close> is broken with the variable of the first entry as
  representative: the substitution maps the variable of every other entry to the
  representative, and there is one equation of the representative and the variable for
  every other entry, in the order of the entries.
\<close>

definition representativeSubs :: "UpdateMap \<Rightarrow> (ExprSymbol \<rightharpoonup> Expression)" where
  "representativeSubs un =
     (case un of
        [] \<Rightarrow> Map.empty
      | t # others \<Rightarrow>
          (\<lambda>s. if s \<in> Var ` fst ` set others then Some (Symbol (Var (fst t))) else None))"

definition representativeEqs :: "UpdateMap \<Rightarrow> GuardList" where
  "representativeEqs un =
     (case un of
        [] \<Rightarrow> []
      | t # others \<Rightarrow>
          map (\<lambda>up. Relational relation_equal (Symbol (Var (fst t))) (Symbol (Var (fst up))))
            others)"

subsection \<open>The closed forms of an update\<close>

text \<open>
  \<open>cfs\<close> lists the solutions that the solver gives for the variables \<open>vs\<close>, in order.
  \<open>known\<close> maps the variables that come before to their solutions at \<open>n - 1\<close>. For a
  variable \<open>v\<close> with the right-hand side \<open>rhs\<close>, these are substituted in \<open>rhs\<close>; the
  solver is asked for the recurrence whose right-hand side is the result with \<open>x(n - 1)\<close>
  for \<open>v\<close>, with the result as initial condition at 1; its solution, at \<open>n - 1\<close>, is
  known for the variables that follow. \<open>preRecurrences\<close> is what is known in the end.
\<close>

fun closedForms ::
  "Solver \<Rightarrow> UpdateMap \<Rightarrow> (ExprSymbol \<rightharpoonup> Expression) \<Rightarrow> VariableIdx list \<Rightarrow> Expression list
     \<Rightarrow> bool" where
  "closedForms solve update known [] cfs = (cfs = [])"
| "closedForms solve update known (v # vs) [] = False"
| "closedForms solve update known (v # vs) (cf # cfs) =
     (case map_of update v of
        None \<Rightarrow> False
      | Some rhs \<Rightarrow>
          solve (subs [Var v \<mapsto> lastX] (subs known rhs)) 1 (subs known rhs) = Some cf
          \<and> closedForms solve update
               (known(Var v \<mapsto> subs [PurrsN \<mapsto> minus (Symbol PurrsN) (Numeric 1)] cf)) vs cfs)"

fun preRecurrences ::
  "(ExprSymbol \<rightharpoonup> Expression) \<Rightarrow> VariableIdx list \<Rightarrow> Expression list
     \<Rightarrow> (ExprSymbol \<rightharpoonup> Expression)" where
  "preRecurrences known (v # vs) (cf # cfs) =
     preRecurrences (known(Var v \<mapsto> subs [PurrsN \<mapsto> minus (Symbol PurrsN) (Numeric 1)] cf))
       vs cfs"
| "preRecurrences known vs cfs = known"

text \<open>A solver that solves the recurrence of the cost, and no other.\<close>

definition exampleSolverCostOnly :: Solver where
  "exampleSolverCostOnly rhs i init = (if i = 0 then exampleSolver rhs i init else None)"

text \<open>The loop with the update \<open>x0 := x1 + x2, x1 := x2, x2 := x0\<close>.\<close>

definition exampleCycle :: LinearRule where
  "exampleCycle =
     \<lparr>linLhsLoc = 1,
      linGuard = [Relational relation_greater (Symbol (Var 3)) (Numeric 0)],
      linCost = Numeric 1, linRhsLoc = 1,
      linUpdate = [(0, Add (Symbol (Var 1)) (Symbol (Var 2))), (1, Symbol (Var 2)),
                   (2, Symbol (Var 0))]\<rparr>"

text \<open>The loop with the update \<open>x0 := 5, x1 := x2, x2 := x1\<close>.\<close>

definition exampleConstAndSwap :: LinearRule where
  "exampleConstAndSwap =
     \<lparr>linLhsLoc = 1,
      linGuard = [Relational relation_greater (Symbol (Var 3)) (Numeric 0)],
      linCost = Numeric 1, linRhsLoc = 1,
      linUpdate = [(0, Numeric 5), (1, Symbol (Var 2)), (2, Symbol (Var 1))]\<rparr>"
section \<open>The scan of \<open>getMaxRuntime\<close>\<close>


lemma hasTempVar_iff:
  "(\<not> isInfSymbol cost \<and> hasVariableWith (isTempVar its) cost)
     \<longleftrightarrow> (\<exists>s \<in> set (getVariables cost). isTempVar its s)"
  by (auto simp: isInfSymbol_def hasVariableWith_def list_ex_iff)

lemma replaceBest_record:
  "replaceBest res checkRes g =
     (if checkCpx checkRes > cpx res
      then \<lparr>cpx = checkCpx checkRes, bound = checkCost checkRes,
            reducedCpx = checkReducedCpx checkRes, guard = g\<rparr>
      else res)"
  by (cases res) (simp add: replaceBest_def)

lemma cpx_replaceBest:
  "cpx (replaceBest res checkRes g) = (if checkCpx checkRes > cpx res then checkCpx checkRes else cpx res)"
  by (simp add: replaceBest_def)

lemma getMaxRuntime_loop_skip:
  assumes "\<not> (getComplexity env (getCost (getRule its r)) > cpx res
              \<or> (\<exists>s \<in> set (getVariables (getCost (getRule its r))). isTempVar its s))"
  shows "getMaxRuntime_loop env its (r # rs) res k steps
           = getMaxRuntime_loop env its rs res k (steps @ [Skipped r])"
  using assms by (simp add: Let_def hasTempVar_iff not_less)

lemma getMaxRuntime_loop_check:
  assumes "getComplexity env (getCost (getRule its r)) > cpx res
              \<or> (\<exists>s \<in> set (getVariables (getCost (getRule its r))). isTempVar its s)"
    and "cpx res < Infty"
  shows "getMaxRuntime_loop env its (r # rs) res k steps
           = (let res1 = replaceBest res
                   (determineComplexity env its (getGuard (getRule its r))
                      (getCost (getRule its r)) True) (getGuard (getRule its r))
              in if cpx res1 \<ge> Infty then (res1, k, steps @ [Checked r])
                 else if hard env k then (res1, Suc k, steps @ [Checked r])
                 else getMaxRuntime_loop env its rs res1 (Suc k) (steps @ [Checked r]))"
proof -
  have "\<not> (getComplexity env (getCost (getRule its r)) \<le> cpx res
           \<and> \<not> (\<not> isInfSymbol (getCost (getRule its r))
                 \<and> hasVariableWith (isTempVar its) (getCost (getRule its r))))"
    using assms(1) unfolding hasTempVar_iff by (auto simp: not_le)
  then show ?thesis
    using assms(2) by (auto simp: Let_def replaceBest_def not_le)
qed

declare getMaxRuntime_loop.simps(2) [simp del]

lemma getMaxRuntime_loop_spec:
  assumes "cpx res < Infty"
    and "getMaxRuntime_loop env its rs res k steps = (res', k', steps')"
  shows "\<exists>tr. steps' = steps @ tr
     \<and> scanAsAmended
          (\<lambda>i. getComplexity env (getCost (getRule its i)))
          (\<lambda>i. \<exists>s \<in> set (getVariables (getCost (getRule its i))). isTempVar its s)
          (\<lambda>i. determineComplexity env its (getGuard (getRule its i))
                            (getCost (getRule its i)) True)
          (\<lambda>i. getGuard (getRule its i))
          (hard env) res k rs tr res'
     \<and> k \<le> k'"
  using assms
proof (induction rs arbitrary: res k steps)
  case Nil
  then show ?case by simp
next
  case (Cons r rs)
  let ?cost = "getCost (getRule its r)"
  let ?chk = "determineComplexity env its (getGuard (getRule its r)) ?cost True"
  let ?temp = "\<exists>s \<in> set (getVariables ?cost). isTempVar its s"
  let ?res1 = "replaceBest res ?chk (getGuard (getRule its r))"
  let ?P = "scanAsAmended
          (\<lambda>i. getComplexity env (getCost (getRule its i)))
          (\<lambda>i. \<exists>s \<in> set (getVariables (getCost (getRule its i))). isTempVar its s)
          (\<lambda>i. determineComplexity env its (getGuard (getRule its i))
                            (getCost (getRule its i)) True)
          (\<lambda>i. getGuard (getRule its i))
          (hard env)"
  show ?case
  proof (cases "getComplexity env ?cost > cpx res \<or> ?temp")
    case False
    then have run: "getMaxRuntime_loop env its rs res k (steps @ [Skipped r]) = (res', k', steps')"
      using Cons.prems(2) getMaxRuntime_loop_skip by simp
    from Cons.IH[OF Cons.prems(1) run] obtain tr where
      tr: "steps' = (steps @ [Skipped r]) @ tr" and rest: "?P res k rs tr res'"
      and kk: "k \<le> k'"
      by blast
    have "?P res k (r # rs) (Skipped r # tr) res'"
      using rest False by simp
    then show ?thesis
      using tr kk by (intro exI[of _ "Skipped r # tr"]) simp
  next
    case True
    note step = getMaxRuntime_loop_check[OF True Cons.prems(1), of rs k steps]
    consider (infty) "cpx ?res1 \<ge> Infty"
      | (timeout) "\<not> cpx ?res1 \<ge> Infty" "hard env k"
      | (go) "\<not> cpx ?res1 \<ge> Infty" "\<not> hard env k"
      by blast
    then show ?thesis
    proof cases
      case infty
      have eq: "(res', k', steps') = (?res1, k, steps @ [Checked r])"
        using Cons.prems(2) step infty by (simp add: Let_def)
      have "?P res k (r # rs) [Checked r] ?res1"
        using True infty by (simp add: Let_def replaceBest_record[symmetric])
      then show ?thesis
        using eq by (intro exI[of _ "[Checked r]"]) simp
    next
      case timeout
      have eq: "(res', k', steps') = (?res1, Suc k, steps @ [Checked r])"
        using Cons.prems(2) step timeout by (simp add: Let_def)
      have "?P res k (r # rs) [Checked r] ?res1"
        using True timeout by (simp add: Let_def replaceBest_record[symmetric])
      then show ?thesis
        using eq by (intro exI[of _ "[Checked r]"]) simp
    next
      case go
      have run: "getMaxRuntime_loop env its rs ?res1 (Suc k) (steps @ [Checked r]) = (res', k', steps')"
        using Cons.prems(2) step go by (simp add: Let_def)
      have lt: "cpx ?res1 < Infty" using go(1) by simp
      from Cons.IH[OF lt run] obtain tr where
        tr: "steps' = (steps @ [Checked r]) @ tr" and rest: "?P ?res1 (Suc k) rs tr res'"
        and kk: "Suc k \<le> k'"
        by blast
      have "?P res k (r # rs) (Checked r # tr) res'"
        using rest True go by (simp add: Let_def replaceBest_record[symmetric])
      then show ?thesis
        using tr kk by (intro exI[of _ "Checked r # tr"]) simp
    qed
  qed
qed

lemma getMaxComplexity_spec:
  "getMaxComplexity env its rs res
     = maxComplexityAsAmended
         (\<lambda>i. getComplexity env (getCost (getRule its i)))
         (\<lambda>i. getCost (getRule its i)) (\<lambda>i. getGuard (getRule its i)) res rs"
proof (induction rs arbitrary: res)
  case Nil
  show ?case by simp
next
  case (Cons r rs)
  show ?case
    using Cons.IH by (cases res) (simp add: Let_def)
qed

lemma getTransitionsFrom_sorted:
  assumes "wellformed its"
  shows "sorted_wrt (<) (getTransitionsFrom its loc)"
proof -
  have "sorted_wrt (<) (map fst (rules its))"
    using assms by (simp add: wellformed_def)
  then have "sorted_wrt (\<lambda>a b. fst a < fst b) (filter (\<lambda>(idx, r). getLhsLoc r = loc) (rules its))"
    by (simp add: sorted_wrt_map sorted_wrt_filter)
  then show ?thesis
    by (simp add: getTransitionsFrom_def sorted_wrt_map)
qed

lemma getTransitionsFrom_set:
  "set (getTransitionsFrom its loc)
     = {idx. \<exists>r. (idx, r) \<in> set (rules its) \<and> getLhsLoc r = loc}"
  by (force simp: getTransitionsFrom_def)

theorem getMaxRuntime_counterexample:
  "getMaxRuntime exampleEnvTimeout exampleFlat 0 =
       (\<lparr>cpx = Const, bound = Numeric 1, reducedCpx = Const, guard = []\<rparr>, 1, [Checked 0])
   \<and> getTransitionsFrom exampleFlat (initialLocation exampleFlat) = [0, 1, 2]
   \<and> getComplexity exampleEnvTimeout (getCost (getRule exampleFlat 1)) = Poly 1
   \<and> Const < Poly 1
   \<and> getMaxRuntime exampleEnvNoCheck exampleFlat 0 =
       (\<lparr>cpx = Poly 1, bound = Symbol (Var 0), reducedCpx = Unknown, guard = []\<rparr>, 0, [])"
  by code_simp

text \<open>
  Claim C2, amended. The rules that leave the initial location are scanned in the order
  of their indices. In a build with the asymptotic check, the steps and the result of
  \<open>getMaxRuntime\<close> are those of the scan described by \<open>scanAsAmended\<close>, started with
  the default result: the prover is called for a rule if and only if the complexity of
  its cost exceeds the class of the current best or its cost mentions a temporary
  variable; the best is replaced, by the class, the bound and the reduced class of the
  prover's answer and the guard of the rule, only when the class of the answer is
  strictly greater; the scan stops immediately once the best reaches \<open>Infty\<close>, stops
  when the poll of the hard timeout that follows a call of the prover fires, and
  otherwise looks at every rule. In a build without the asymptotic check the prover is
  never called, and the result is the class, the guard and the cost of the first rule
  whose cost has the greatest complexity.
\<close>

theorem getMaxRuntime_scan:
  assumes "wellformed its"
  shows "sorted_wrt (<) (getTransitionsFrom its (initialLocation its))
     \<and> set (getTransitionsFrom its (initialLocation its))
           = {idx. \<exists>r. (idx, r) \<in> set (rules its) \<and> getLhsLoc r = initialLocation its}
     \<and> (if FINAL_INFINITY_CHECK env
        then scanAsAmended
               (\<lambda>i. getComplexity env (getCost (getRule its i)))
               (\<lambda>i. \<exists>s \<in> set (getVariables (getCost (getRule its i))). isTempVar its s)
               (\<lambda>i. determineComplexity env its (getGuard (getRule its i))
                       (getCost (getRule its i)) True)
               (\<lambda>i. getGuard (getRule its i))
               (hard env)
               (RuntimeResult_default (defaultBound env)) k
               (getTransitionsFrom its (initialLocation its))
               (snd (snd (getMaxRuntime env its k))) (fst (getMaxRuntime env its k))
        else getMaxRuntime env its k =
               (maxComplexityAsAmended
                  (\<lambda>i. getComplexity env (getCost (getRule its i)))
                  (\<lambda>i. getCost (getRule its i)) (\<lambda>i. getGuard (getRule its i))
                  (RuntimeResult_default (defaultBound env))
                  (getTransitionsFrom its (initialLocation its)),
                k, []))"
proof (cases "FINAL_INFINITY_CHECK env")
  case True
  let ?res0 = "RuntimeResult_default (defaultBound env)"
  obtain res k' steps where g: "getMaxRuntime env its k = (res, k', steps)"
    by (cases "getMaxRuntime env its k") auto
  have start: "cpx ?res0 < Infty"
    by (simp add: RuntimeResult_default_def less_Complexity_def)
  have loop: "getMaxRuntime_loop env its (getTransitionsFrom its (initialLocation its)) ?res0 k []
                = (res, k', steps)"
    using True g by (simp add: getMaxRuntime_def Let_def)
  from getMaxRuntime_loop_spec [OF start loop]
  show ?thesis
    using getTransitionsFrom_sorted [OF assms] getTransitionsFrom_set True g by auto
next
  case False
  then show ?thesis
    using getTransitionsFrom_sorted [OF assms] getTransitionsFrom_set
    by (simp add: getMaxRuntime_def Let_def getMaxComplexity_spec)
qed

theorem getMaxRuntime_scan_witness:
  "wellformed exampleTies
   \<and> FINAL_INFINITY_CHECK exampleEnv
   \<and> getMaxRuntime exampleEnv exampleTies 0 =
       (\<lparr>cpx = Poly 1, bound = Symbol (Var 0), reducedCpx = Poly 1, guard = []\<rparr>, 2,
        [Checked 0, Checked 1])
   \<and> getTransitionsFrom exampleTies (initialLocation exampleTies) = [0, 1]
   \<and> scanAsAmended
          (\<lambda>i. getComplexity exampleEnv (getCost (getRule exampleTies i)))
          (\<lambda>i. \<exists>s \<in> set (getVariables (getCost (getRule exampleTies i))). isTempVar exampleTies s)
          (\<lambda>i. determineComplexity exampleEnv exampleTies (getGuard (getRule exampleTies i))
                            (getCost (getRule exampleTies i)) True)
          (\<lambda>i. getGuard (getRule exampleTies i))
          (hard exampleEnv)
          (RuntimeResult_default (defaultBound exampleEnv)) 0
          [0, 1] [Checked 0, Checked 1]
          \<lparr>cpx = Poly 1, bound = Symbol (Var 0), reducedCpx = Poly 1, guard = []\<rparr>"
proof -
  have h1: "FINAL_INFINITY_CHECK exampleEnv"
    by (simp add: exampleEnv_def)
  have h2: "wellformed exampleTies"
    by code_simp
  have h3: "getMaxRuntime exampleEnv exampleTies 0 =
       (\<lparr>cpx = Poly 1, bound = Symbol (Var 0), reducedCpx = Poly 1, guard = []\<rparr>, 2,
        [Checked 0, Checked 1])"
    by code_simp
  have rs: "getTransitionsFrom exampleTies (initialLocation exampleTies) = [0, 1]"
    by code_simp
  let ?scan = "scanAsAmended
          (\<lambda>i. getComplexity exampleEnv (getCost (getRule exampleTies i)))
          (\<lambda>i. \<exists>s \<in> set (getVariables (getCost (getRule exampleTies i))). isTempVar exampleTies s)
          (\<lambda>i. determineComplexity exampleEnv exampleTies (getGuard (getRule exampleTies i))
                            (getCost (getRule exampleTies i)) True)
          (\<lambda>i. getGuard (getRule exampleTies i))
          (hard exampleEnv)
          (RuntimeResult_default (defaultBound exampleEnv)) 0"
  from getMaxRuntime_scan [OF h2, of exampleEnv 0] h1
  have "?scan (getTransitionsFrom exampleTies (initialLocation exampleTies))
          (snd (snd (getMaxRuntime exampleEnv exampleTies 0)))
          (fst (getMaxRuntime exampleEnv exampleTies 0))"
    by (simp only: if_True)
  then have "?scan [0, 1] [Checked 0, Checked 1]
          \<lparr>cpx = Poly 1, bound = Symbol (Var 0), reducedCpx = Poly 1, guard = []\<rparr>"
    unfolding h3 rs by (simp only: fst_conv snd_conv)
  with h1 h2 h3 rs show ?thesis
    by (intro conjI)
qed
section \<open>The dependency order and the iterated update\<close>

lemma orderPass_props:
  assumes "orderPass update xs ov L c = (ov', L', c')"
  shows "\<exists>new. L' = L @ new \<and> ov' = ov \<union> set new \<and> set new \<inter> ov = {} \<and> distinct new
           \<and> set new \<subseteq> fst ` set xs \<and> (c' \<longleftrightarrow> c \<or> new \<noteq> [])"
  using assms
proof (induction xs arbitrary: ov L c)
  case Nil
  then show ?case by simp
next
  case (Cons up xs)
  show ?case
  proof (cases "ready update ov up")
    case False
    then have "orderPass update xs ov L c = (ov', L', c')"
      using Cons.prems by (auto simp: ready_def split: if_splits)
    from Cons.IH[OF this] show ?thesis by auto
  next
    case True
    then have "orderPass update xs (insert (fst up) ov) (L @ [fst up]) True = (ov', L', c')"
      using Cons.prems by (auto simp: ready_def split: if_splits)
    from Cons.IH[OF this] obtain new where
      new: "L' = (L @ [fst up]) @ new" "ov' = insert (fst up) ov \<union> set new"
        "set new \<inter> insert (fst up) ov = {}" "distinct new" "set new \<subseteq> fst ` set xs"
        "c' \<longleftrightarrow> True \<or> new \<noteq> []"
      by blast
    show ?thesis
      apply (rule exI[of _ "fst up # new"])
      using new True by (auto simp: ready_def)
  qed
qed

lemma orderPass_progress:
  assumes "\<exists>up \<in> set xs. ready update ov up"
    and "orderPass update xs ov L c = (ov', L', c')"
  shows "c'"
  using assms
proof (induction xs arbitrary: L c)
  case Nil
  then show ?case by simp
next
  case (Cons up xs)
  show ?case
  proof (cases "ready update ov up")
    case True
    then have "orderPass update xs (insert (fst up) ov) (L @ [fst up]) True = (ov', L', c')"
      using Cons.prems(2) by (auto simp: ready_def split: if_splits)
    from orderPass_props[OF this] show ?thesis by auto
  next
    case False
    then have run: "orderPass update xs ov L c = (ov', L', c')"
      using Cons.prems(2) by (auto simp: ready_def split: if_splits)
    have "\<exists>up \<in> set xs. ready update ov up"
      using Cons.prems(1) False by auto
    from Cons.IH[OF this run] show ?thesis .
  qed
qed

lemma breakCycle_Some:
  "breakCycle ov xs (Some t) m g =
     ((\<lambda>s. if s \<in> Var ` fst ` set (filter (\<lambda>up. fst up \<notin> ov) xs) then Some (Symbol t) else m s),
      g @ map (\<lambda>up. Relational relation_equal (Symbol t) (Symbol (Var (fst up))))
            (filter (\<lambda>up. fst up \<notin> ov) xs))"
proof (induction xs arbitrary: m g)
  case Nil
  then show ?case by simp
next
  case (Cons up xs)
  show ?case
    by (cases "fst up \<in> ov") (auto simp: Cons.IH fun_eq_iff)
qed

lemma breakCycle_None:
  "breakCycle ov xs None m g =
     (case filter (\<lambda>up. fst up \<notin> ov) xs of
        [] \<Rightarrow> (m, g)
      | t # others \<Rightarrow>
          ((\<lambda>s. if s \<in> Var ` fst ` set others then Some (Symbol (Var (fst t))) else m s),
           g @ map (\<lambda>up. Relational relation_equal (Symbol (Var (fst t))) (Symbol (Var (fst up))))
                 others))"
proof (induction xs)
  case Nil
  then show ?case by simp
next
  case (Cons up xs)
  show ?case
  proof (cases "fst up \<in> ov")
    case True
    then show ?thesis using Cons.IH by simp
  next
    case False
    have "filter (\<lambda>up. fst up \<notin> ov) xs = filter (\<lambda>up. fst up \<notin> ov) xs" ..
    then show ?thesis
      using False by (simp add: breakCycle_Some)
  qed
qed

lemma getVarIdxs_subs:
  assumes "\<And>s e. m s = Some e \<Longrightarrow> e = Symbol (Var t)"
    and "vi \<in> set (getVarIdxs (subs m e))"
  shows "vi = t \<or> (vi \<in> set (getVarIdxs e) \<and> m (Var vi) = None)"
  using assms(2)
proof (induction e)
  case (Symbol s)
  show ?case
  proof (cases "m s")
    case None
    with Symbol show ?thesis by (cases s) auto
  next
    case (Some e)
    then have "e = Symbol (Var t)" by (rule assms(1))
    with Some Symbol show ?thesis by simp
  qed
qed auto

lemma mapSet_keys: "fst ` set (mapSet u v e) = insert v (fst ` set u)"
  by (induction u) auto

lemma calcIteratedUpdate_loop_props:
  assumes "set depOrder \<subseteq> fst ` set update"
  shows "\<exists>res rec'. calcIteratedUpdate_loop solve update meterfunc depOrder rec newUpdate = Inr (res, rec')
           \<and> addGuard rec' = addGuard rec
           \<and> (\<forall>nu. res = Some nu \<longrightarrow> fst ` set nu = fst ` set newUpdate \<union> set depOrder)"
  using assms
proof (induction depOrder arbitrary: rec newUpdate)
  case Nil
  then show ?case by simp
next
  case (Cons vi rest)
  then obtain rhs where rhs: "map_of update vi = Some rhs"
    by (metis list.set_intros(1) subsetD weak_map_of_SomeI map_of_eq_None_iff not_None_eq)
  let ?todo = "subs (knownPreRecurrences rec) rhs"
  show ?case
  proof (cases "findUpdateRecurrence solve ?todo (Var vi)")
    case None
    then show ?thesis using rhs by simp
  next
    case (Some res)
    let ?rec1 = "rec\<lparr>knownPreRecurrences := (knownPreRecurrences rec)
                            (Var vi \<mapsto> subs [PurrsN \<mapsto> minus ginacN (Numeric 1)] res)\<rparr>"
    let ?nu1 = "mapSet newUpdate vi (subs [PurrsN \<mapsto> meterfunc] res)"
    have sub: "set rest \<subseteq> fst ` set update" using Cons.prems by simp
    from Cons.IH[OF sub, of ?rec1 ?nu1] obtain r rec' where
      "calcIteratedUpdate_loop solve update meterfunc rest ?rec1 ?nu1 = Inr (r, rec')"
      "addGuard rec' = addGuard ?rec1"
      "\<forall>nu. r = Some nu \<longrightarrow> fst ` set nu = fst ` set ?nu1 \<union> set rest"
      by blast
    then show ?thesis
      using rhs Some by (auto simp: mapSet_keys)
  qed
qed

subsection \<open>The exact result of the dependency order\<close>

lemma subs_empty: "subs Map.empty e = e"
  by (induction e) simp_all

lemma orderPass_steps:
  assumes "orderPass update xs ov L c = (ov', L', c')"
  shows "\<exists>new. L' = L @ new \<and> ov' = ov \<union> set new \<and> set new \<inter> ov = {} \<and> distinct new
           \<and> set new \<subseteq> fst ` set xs \<and> (c' \<longleftrightarrow> c \<or> new \<noteq> [])
           \<and> (\<forall>i < length new. \<exists>rhs. (new ! i, rhs) \<in> set xs
                  \<and> ready update (ov \<union> set (take i new)) (new ! i, rhs))"
  using assms
proof (induction xs arbitrary: ov L c)
  case Nil
  then show ?case by simp
next
  case (Cons up xs)
  show ?case
  proof (cases "ready update ov up")
    case False
    then have "orderPass update xs ov L c = (ov', L', c')"
      using Cons.prems by (auto simp: ready_def split: if_splits)
    from Cons.IH[OF this] obtain new where
      new: "L' = L @ new" "ov' = ov \<union> set new" "set new \<inter> ov = {}" "distinct new"
        "set new \<subseteq> fst ` set xs" "c' \<longleftrightarrow> c \<or> new \<noteq> []"
        "\<forall>i < length new. \<exists>rhs. (new ! i, rhs) \<in> set xs
                  \<and> ready update (ov \<union> set (take i new)) (new ! i, rhs)"
      by blast
    have "\<forall>i < length new. \<exists>rhs. (new ! i, rhs) \<in> set (up # xs)
                  \<and> ready update (ov \<union> set (take i new)) (new ! i, rhs)"
      using new(7) by auto
    with new(1-6) show ?thesis
      by (intro exI[of _ new]) auto
  next
    case True
    then have "orderPass update xs (insert (fst up) ov) (L @ [fst up]) True = (ov', L', c')"
      using Cons.prems by (auto simp: ready_def split: if_splits)
    from Cons.IH[OF this] obtain new where
      new: "L' = (L @ [fst up]) @ new" "ov' = insert (fst up) ov \<union> set new"
        "set new \<inter> insert (fst up) ov = {}" "distinct new" "set new \<subseteq> fst ` set xs"
        "c' \<longleftrightarrow> True \<or> new \<noteq> []"
        "\<forall>i < length new. \<exists>rhs. (new ! i, rhs) \<in> set xs
                  \<and> ready update (insert (fst up) ov \<union> set (take i new)) (new ! i, rhs)"
      by blast
    have st: "\<exists>rhs. ((fst up # new) ! i, rhs) \<in> set (up # xs)
                  \<and> ready update (ov \<union> set (take i (fst up # new))) ((fst up # new) ! i, rhs)"
      if i: "i < length (fst up # new)" for i
    proof (cases i)
      case 0
      have "(fst up, snd up) \<in> set (up # xs) \<and> ready update ov (fst up, snd up)"
        using True by simp
      then show ?thesis unfolding 0 by (intro exI[of _ "snd up"]) simp
    next
      case (Suc j)
      then have "j < length new" using i by simp
      with new(7) obtain rhs where
        "(new ! j, rhs) \<in> set xs"
        "ready update (insert (fst up) ov \<union> set (take j new)) (new ! j, rhs)"
        by blast
      then show ?thesis using Suc by auto
    qed
    show ?thesis
      apply (rule exI[of _ "fst up # new"])
      using new(1-6) True st by (auto simp: ready_def)
  qed
qed

lemma orderPass_all:
  assumes "distinct (map fst xs)"
    and "\<forall>up \<in> set xs. fst up \<notin> ov \<longrightarrow>
           (\<forall>vi \<in> set (getVarIdxs (snd up)).
              vi \<noteq> fst up \<and> vi \<in> fst ` set update \<and> vi \<notin> ov \<longrightarrow> vi = t)"
    and "t \<in> ov \<or> (\<forall>up others. filter (\<lambda>up. fst up \<notin> ov) xs = up # others \<longrightarrow> fst up = t)"
  shows "orderPass update xs ov L c
           = (ov \<union> fst ` set (filter (\<lambda>up. fst up \<notin> ov) xs),
              L @ map fst (filter (\<lambda>up. fst up \<notin> ov) xs),
              c \<or> filter (\<lambda>up. fst up \<notin> ov) xs \<noteq> [])"
  using assms
proof (induction xs arbitrary: ov L c)
  case Nil
  then show ?case by simp
next
  case (Cons up xs)
  have d: "distinct (map fst xs)" and nin: "fst up \<notin> fst ` set xs"
    using Cons.prems(1) by auto
  show ?case
  proof (cases "fst up \<in> ov")
    case True
    have 2: "\<forall>up \<in> set xs. fst up \<notin> ov \<longrightarrow>
           (\<forall>vi \<in> set (getVarIdxs (snd up)).
              vi \<noteq> fst up \<and> vi \<in> fst ` set update \<and> vi \<notin> ov \<longrightarrow> vi = t)"
      using Cons.prems(2) by simp
    have 3: "t \<in> ov \<or> (\<forall>up others. filter (\<lambda>up. fst up \<notin> ov) xs = up # others \<longrightarrow> fst up = t)"
      using Cons.prems(3) True by simp
    from Cons.IH[OF d 2 3] show ?thesis
      using True by simp
  next
    case False
    have tt: "t \<in> ov \<or> fst up = t"
      using Cons.prems(3) False by simp
    have nodep: "\<not> list_ex (\<lambda>vi. vi \<noteq> fst up \<and> vi \<in> fst ` set update \<and> vi \<notin> ov)
                    (getVarIdxs (snd up))"
    proof
      assume "list_ex (\<lambda>vi. vi \<noteq> fst up \<and> vi \<in> fst ` set update \<and> vi \<notin> ov)
                    (getVarIdxs (snd up))"
      then obtain vi where vi: "vi \<in> set (getVarIdxs (snd up))" "vi \<noteq> fst up"
        "vi \<in> fst ` set update" "vi \<notin> ov"
        by (auto simp: list_ex_iff)
      with Cons.prems(2) False have "vi = t" by auto
      with vi(2,4) tt show False by auto
    qed
    let ?ov = "insert (fst up) ov"
    have 2: "\<forall>up' \<in> set xs. fst up' \<notin> ?ov \<longrightarrow>
           (\<forall>vi \<in> set (getVarIdxs (snd up')).
              vi \<noteq> fst up' \<and> vi \<in> fst ` set update \<and> vi \<notin> ?ov \<longrightarrow> vi = t)"
      using Cons.prems(2) by simp
    have 3: "t \<in> ?ov \<or> (\<forall>up' others. filter (\<lambda>up. fst up \<notin> ?ov) xs = up' # others \<longrightarrow> fst up' = t)"
      using tt by auto
    have f: "filter (\<lambda>u. fst u \<notin> ?ov) xs = filter (\<lambda>u. fst u \<notin> ov) xs"
    proof (rule filter_cong[OF refl])
      fix x assume "x \<in> set xs"
      then have "fst x \<in> fst ` set xs" by (rule imageI)
      with nin have "fst x \<noteq> fst up" by metis
      then show "(fst x \<notin> ?ov) = (fst x \<notin> ov)" by simp
    qed
    have "orderPass update (up # xs) ov L c = orderPass update xs ?ov (L @ [fst up]) True"
      using False nodep by simp
    also have "\<dots> = (?ov \<union> fst ` set (filter (\<lambda>u. fst u \<notin> ?ov) xs),
              (L @ [fst up]) @ map fst (filter (\<lambda>u. fst u \<notin> ?ov) xs),
              True \<or> filter (\<lambda>u. fst u \<notin> ?ov) xs \<noteq> [])"
      by (rule Cons.IH[OF d 2 3])
    finally have e: "orderPass update (up # xs) ov L c
           = (?ov \<union> fst ` set (filter (\<lambda>u. fst u \<notin> ?ov) xs),
              (L @ [fst up]) @ map fst (filter (\<lambda>u. fst u \<notin> ?ov) xs),
              True \<or> filter (\<lambda>u. fst u \<notin> ?ov) xs \<noteq> [])" .
    have tgt: "filter (\<lambda>u. fst u \<notin> ov) (up # xs) = up # filter (\<lambda>u. fst u \<notin> ov) xs"
      using False by simp
    show ?thesis
      unfolding tgt using e[unfolded f] by simp
  qed
qed

lemma unresolved_length:
  assumes "distinct (map fst update)" and "distinct L" and "set L \<subseteq> fst ` set update"
  shows "length L + length (unresolved update L) = length update"
proof -
  have "length (unresolved update L) = length (filter (\<lambda>v. v \<notin> set L) (map fst update))"
    by (simp add: unresolved_def filter_map comp_def)
  also have "\<dots> = card (set (filter (\<lambda>v. v \<notin> set L) (map fst update)))"
  proof -
    have "distinct (filter (\<lambda>v. v \<notin> set L) (map fst update))"
      using assms(1) by (rule distinct_filter)
    then show ?thesis by (simp only: distinct_card)
  qed
  also have "\<dots> = card (fst ` set update - set L)"
    by (rule arg_cong[where f = card]) auto
  finally have 1: "length (unresolved update L) = card (fst ` set update - set L)" .
  have 2: "length L = card (set L)"
    using assms(2) by (simp add: distinct_card)
  have 3: "length update = card (fst ` set update)"
    using assms(1) by (metis distinct_card length_map set_map)
  have "card (fst ` set update - set L) = card (fst ` set update) - card (set L)"
    using assms(3) by (simp add: card_Diff_subset)
  moreover have "card (set L) \<le> card (fst ` set update)"
    using assms(3) by (simp add: card_mono)
  ultimately show ?thesis using 1 2 3 by simp
qed

lemma dependencyOrder_loop_cycle:
  assumes "distinct (map fst update)" and "ov = set L" and "distinct L"
    and "ov \<subseteq> fst ` set update"
    and U: "unresolved update L = t # others"
    and noready: "\<forall>up \<in> set update. \<not> ready update ov up"
  shows "dependencyOrder_loop update ov L g
           = Some (L @ map fst (unresolved update L),
                   map (\<lambda>up. (fst up, subs (representativeSubs (unresolved update L)) (snd up))) update,
                   g @ representativeEqs (unresolved update L))"
proof -
  let ?K = "fst ` set update"
  let ?U = "filter (\<lambda>up. fst up \<notin> ov) update"
  have UU: "?U = t # others"
    using U assms(2) by (simp add: unresolved_def)
  let ?m = "(\<lambda>s. if s \<in> Var ` fst ` set others then Some (Symbol (Var (fst t))) else None)
                  :: ExprSymbol \<rightharpoonup> Expression"
  let ?eqs1 = "map (\<lambda>up. Relational relation_equal (Symbol (Var (fst t))) (Symbol (Var (fst up))))
                 others"
  let ?f = "\<lambda>up. (fst up, subs ?m (snd up))"
  let ?update' = "map ?f update"
  have rs: "representativeSubs (unresolved update L) = ?m"
    and re: "representativeEqs (unresolved update L) = ?eqs1"
    unfolding U by (simp_all add: representativeSubs_def representativeEqs_def)
  have len: "length L + length (unresolved update L) = length update"
    using assms(1,3,4) unfolding assms(2) by (rule unresolved_length)
  have small: "length L < length update"
    using len U by simp
  obtain ov' L' c' where pass: "orderPass update update ov L False = (ov', L', c')"
    by (cases "orderPass update update ov L False") auto
  from orderPass_steps[OF pass] obtain new where
    new: "L' = L @ new" "ov' = ov \<union> set new" "c' \<longleftrightarrow> new \<noteq> []"
      "\<forall>i < length new. \<exists>rhs. (new ! i, rhs) \<in> set update
                  \<and> ready update (ov \<union> set (take i new)) (new ! i, rhs)"
    by auto
  have "new = []"
  proof (rule ccontr)
    assume "new \<noteq> []"
    then have "0 < length new" by simp
    with new(4) obtain rhs where "(new ! 0, rhs) \<in> set update"
      "ready update (ov \<union> set (take 0 new)) (new ! 0, rhs)"
      by blast
    with noready show False by auto
  qed
  with new have same: "ov' = ov" "L' = L" "\<not> c'" by auto
  have bc: "breakCycle ov update None Map.empty g = (?m, g @ ?eqs1)"
    by (simp add: breakCycle_None UU)
  have step1: "dependencyOrder_loop update ov L g = dependencyOrder_loop ?update' ov L (g @ ?eqs1)"
    using small pass same bc
    by (subst dependencyOrder_loop.simps) simp
  have keys': "map fst ?update' = map fst update"
    by (simp add: comp_def)
  then have K': "fst ` set ?update' = ?K"
    by (metis set_map)
  have d': "distinct (map fst ?update')"
    using assms(1) unfolding keys' .
  have fU: "filter (\<lambda>up. fst up \<notin> ov) ?update' = map ?f ?U"
    by (simp add: filter_map comp_def)
  have setU: "set ?U = insert t (set others)"
    using UU by simp
  have p2: "\<forall>up \<in> set ?update'. fst up \<notin> ov \<longrightarrow>
           (\<forall>vi \<in> set (getVarIdxs (snd up)).
              vi \<noteq> fst up \<and> vi \<in> fst ` set ?update' \<and> vi \<notin> ov \<longrightarrow> vi = fst t)"
  proof (intro ballI impI)
    fix up' vi
    assume up': "up' \<in> set ?update'" and vi: "vi \<in> set (getVarIdxs (snd up'))"
      and c: "vi \<noteq> fst up' \<and> vi \<in> fst ` set ?update' \<and> vi \<notin> ov"
    from up' obtain up where up: "up \<in> set update" "up' = ?f up" by auto
    have mt: "?m s = Some e \<Longrightarrow> e = Symbol (Var (fst t))" for s e
      by (auto split: if_splits)
    have vi': "vi \<in> set (getVarIdxs (subs ?m (snd up)))"
      using vi up(2) by simp
    have "vi = fst t \<or> (vi \<in> set (getVarIdxs (snd up)) \<and> ?m (Var vi) = None)"
      using mt vi' by (rule getVarIdxs_subs[where m = ?m and t = "fst t"])
    moreover have "vi = fst t" if none: "?m (Var vi) = None"
    proof (rule ccontr)
      assume ne: "vi \<noteq> fst t"
      from c have "vi \<in> ?K" unfolding K' by simp
      then obtain w where w: "w \<in> set update" "fst w = vi" by auto
      with c have "w \<in> set ?U" by simp
      with setU ne w(2) have "w \<in> set others" by auto
      with w(2) have "?m (Var vi) \<noteq> None" by auto
      with none show False by contradiction
    qed
    ultimately show "vi = fst t" by blast
  qed
  have p3: "fst t \<in> ov \<or> (\<forall>up os. filter (\<lambda>up. fst up \<notin> ov) ?update' = up # os \<longrightarrow> fst up = fst t)"
    unfolding fU UU by simp
  have pass': "orderPass ?update' ?update' ov L False
                 = (ov \<union> fst ` set (map ?f ?U), L @ map fst (map ?f ?U), True)"
    using orderPass_all[OF d' p2 p3, of L False] unfolding fU UU by simp
  have mf: "map fst (map ?f ?U) = map fst (unresolved update L)"
    using assms(2) by (simp add: unresolved_def comp_def)
  have small': "length L < length ?update'"
    using small by simp
  have step2: "dependencyOrder_loop ?update' ov L (g @ ?eqs1)
                 = dependencyOrder_loop ?update' (ov \<union> fst ` set (map ?f ?U))
                     (L @ map fst (unresolved update L)) (g @ ?eqs1)"
    using small' pass' mf
    by (subst dependencyOrder_loop.simps) simp
  have full: "\<not> length (L @ map fst (unresolved update L)) < length ?update'"
    using len by simp
  have step3: "dependencyOrder_loop ?update' (ov \<union> fst ` set (map ?f ?U))
                     (L @ map fst (unresolved update L)) (g @ ?eqs1)
                 = Some (L @ map fst (unresolved update L), ?update', g @ ?eqs1)"
    using full by (subst dependencyOrder_loop.simps) simp
  show ?thesis
    unfolding rs re step1 step2 step3 ..
qed

lemma dependencyOrder_loop_exact:
  assumes "distinct (map fst update)" and "ov = set L" and "distinct L"
    and "ov \<subseteq> fst ` set update"
  shows "\<exists>new. distinct (L @ new) \<and> set (L @ new) \<subseteq> fst ` set update
       \<and> (\<forall>i < length new. \<exists>rhs. (new ! i, rhs) \<in> set update
              \<and> ready update (set L \<union> set (take i new)) (new ! i, rhs))
       \<and> (\<forall>up \<in> set update. \<not> ready update (set (L @ new)) up)
       \<and> (\<forall>g. dependencyOrder_loop update ov L g
           = Some ((L @ new) @ map fst (unresolved update (L @ new)),
                   map (\<lambda>up. (fst up,
                          subs (representativeSubs (unresolved update (L @ new))) (snd up))) update,
                   g @ representativeEqs (unresolved update (L @ new))))"
  using assms
proof (induction "card (fst ` set update - ov)" arbitrary: ov L rule: less_induct)
  case less
  let ?K = "fst ` set update"
  obtain ov' L' c' where pass: "orderPass update update ov L False = (ov', L', c')"
    by (cases "orderPass update update ov L False") auto
  from orderPass_steps[OF pass] obtain new1 where
    new1: "L' = L @ new1" "ov' = ov \<union> set new1" "set new1 \<inter> ov = {}" "distinct new1"
      "set new1 \<subseteq> ?K" "c' \<longleftrightarrow> new1 \<noteq> []"
      "\<forall>i < length new1. \<exists>rhs. (new1 ! i, rhs) \<in> set update
                  \<and> ready update (ov \<union> set (take i new1)) (new1 ! i, rhs)"
    by auto
  show ?case
  proof (cases c')
    case True
    have small: "length L < length update"
    proof (rule ccontr)
      assume "\<not> length L < length update"
      then have "card ?K \<le> card ov"
        using less.prems(1,2,3) by (metis distinct_card length_map set_map not_le)
      then have "ov = ?K"
        using less.prems(4) by (simp add: card_seteq)
      then have "set new1 \<inter> ?K = {}" using new1(3) by simp
      moreover have "set new1 \<inter> ?K = set new1" using new1(5) by (rule Int_absorb2)
      ultimately have "new1 = []" by simp
      with True new1(6) show False by simp
    qed
    have step: "dependencyOrder_loop update ov L g = dependencyOrder_loop update ov' L' g" for g
      using small pass True by (subst dependencyOrder_loop.simps) simp
    obtain x where x: "x \<in> set new1" using True new1(6) by (cases new1) auto
    have "?K - ov' \<subset> ?K - ov"
      using x new1(2,3,5) by auto
    then have meas: "card (?K - ov') < card (?K - ov)"
      by (intro psubset_card_mono) auto
    have inv: "ov' = set L'" "distinct L'" "ov' \<subseteq> ?K"
      using new1 less.prems(2,3,4) by auto
    from less.hyps[OF meas less.prems(1) inv] obtain new2 where
      n2: "distinct (L' @ new2)" "set (L' @ new2) \<subseteq> ?K"
        "\<forall>i < length new2. \<exists>rhs. (new2 ! i, rhs) \<in> set update
              \<and> ready update (set L' \<union> set (take i new2)) (new2 ! i, rhs)"
        "\<forall>up \<in> set update. \<not> ready update (set (L' @ new2)) up"
        "\<forall>g. dependencyOrder_loop update ov' L' g
           = Some ((L' @ new2) @ map fst (unresolved update (L' @ new2)),
                   map (\<lambda>up. (fst up,
                          subs (representativeSubs (unresolved update (L' @ new2))) (snd up))) update,
                   g @ representativeEqs (unresolved update (L' @ new2)))"
      by (elim exE conjE)
    let ?new = "new1 @ new2"
    have LL: "L' @ new2 = L @ ?new" using new1(1) by simp
    have st: "\<exists>rhs. (?new ! i, rhs) \<in> set update
              \<and> ready update (set L \<union> set (take i ?new)) (?new ! i, rhs)"
      if i: "i < length ?new" for i
    proof (cases "i < length new1")
      case True
      with new1(7) obtain rhs where "(new1 ! i, rhs) \<in> set update"
        "ready update (ov \<union> set (take i new1)) (new1 ! i, rhs)"
        by blast
      then show ?thesis
        using True less.prems(2) by (auto simp: nth_append)
    next
      case False
      let ?j = "i - length new1"
      have j: "?j < length new2" using i False by simp
      with n2(3) obtain rhs where r: "(new2 ! ?j, rhs) \<in> set update"
        "ready update (set L' \<union> set (take ?j new2)) (new2 ! ?j, rhs)"
        by blast
      have "set L' \<union> set (take ?j new2) = set L \<union> set (take i ?new)"
        using False new1(1) by auto
      with r show ?thesis
        using False by (auto simp: nth_append)
    qed
    show ?thesis
    proof (intro exI[of _ ?new] conjI)
      show "distinct (L @ ?new)" using n2(1) unfolding LL .
      show "set (L @ ?new) \<subseteq> ?K" using n2(2) unfolding LL .
      show "\<forall>i < length ?new. \<exists>rhs. (?new ! i, rhs) \<in> set update
              \<and> ready update (set L \<union> set (take i ?new)) (?new ! i, rhs)"
        using st by blast
      show "\<forall>up \<in> set update. \<not> ready update (set (L @ ?new)) up"
        using n2(4) unfolding LL .
      show "\<forall>g. dependencyOrder_loop update ov L g
           = Some ((L @ ?new) @ map fst (unresolved update (L @ ?new)),
                   map (\<lambda>up. (fst up,
                          subs (representativeSubs (unresolved update (L @ ?new))) (snd up))) update,
                   g @ representativeEqs (unresolved update (L @ ?new)))"
      proof
        fix g
        show "dependencyOrder_loop update ov L g
           = Some ((L @ ?new) @ map fst (unresolved update (L @ ?new)),
                   map (\<lambda>up. (fst up,
                          subs (representativeSubs (unresolved update (L @ ?new))) (snd up))) update,
                   g @ representativeEqs (unresolved update (L @ ?new)))"
          unfolding step using n2(5)[rule_format, of g] unfolding LL .
      qed
    qed
  next
    case False
    then have e: "new1 = []" using new1(6) by simp
    then have same: "ov' = ov" "L' = L" using new1 by auto
    have noready: "\<forall>up \<in> set update. \<not> ready update ov up"
      using orderPass_progress[OF _ pass] False by blast
    have nr: "\<forall>up \<in> set update. \<not> ready update (set (L @ [])) up"
      using noready less.prems(2) by simp
    have base: "distinct (L @ [])" "set (L @ []) \<subseteq> ?K"
      using less.prems(2,3,4) by auto
    have "dependencyOrder_loop update ov L g
           = Some ((L @ []) @ map fst (unresolved update (L @ [])),
                   map (\<lambda>up. (fst up,
                          subs (representativeSubs (unresolved update (L @ []))) (snd up))) update,
                   g @ representativeEqs (unresolved update (L @ [])))" for g
    proof (cases "unresolved update L")
      case Nil
      have len: "length L + length (unresolved update L) = length update"
        using less.prems(1,3,4) unfolding less.prems(2) by (rule unresolved_length)
      then have full: "\<not> length L < length update" using Nil by simp
      have "map (\<lambda>up. (fst up, subs Map.empty (snd up))) update = update"
        by (simp add: subs_empty)
      then show ?thesis
        using full Nil
        by (subst dependencyOrder_loop.simps)
           (simp add: representativeSubs_def representativeEqs_def)
    next
      case (Cons t others)
      from dependencyOrder_loop_cycle[OF less.prems Cons noready, of g]
      show ?thesis by simp
    qed
    with base nr show ?thesis
      by (intro exI[of _ "[]"]) simp
  qed
qed
subsection \<open>The closed forms found by the loop over the ordering\<close>

lemma map_of_mapSet: "map_of (mapSet u v e) = (map_of u)(v \<mapsto> e)"
proof (induction u)
  case Nil
  show ?case by simp
next
  case (Cons up rest)
  show ?case
  proof (cases "v = fst up")
    case True
    then show ?thesis by (cases up) auto
  next
    case False
    show ?thesis
    proof (cases "v < fst up")
      case True
      then show ?thesis using False by (cases up) auto
    next
      case nl: False
      have "map_of (up # mapSet rest v e) = (map_of (mapSet rest v e))(fst up \<mapsto> snd up)"
        by (cases up) simp
      also have "\<dots> = ((map_of rest)(v \<mapsto> e))(fst up \<mapsto> snd up)"
        unfolding Cons.IH ..
      also have "\<dots> = ((map_of rest)(fst up \<mapsto> snd up))(v \<mapsto> e)"
        using False by (simp add: fun_upd_twist)
      also have "(map_of rest)(fst up \<mapsto> snd up) = map_of (up # rest)"
        by (cases up) simp
      finally show ?thesis using False nl by simp
    qed
  qed
qed

lemma sorted_mapSet:
  "sorted_wrt (<) (map fst u) \<Longrightarrow> sorted_wrt (<) (map fst (mapSet u v e))"
proof (induction u)
  case Nil
  show ?case by simp
next
  case (Cons up rest)
  have r: "sorted_wrt (<) (map fst rest)" and lt: "\<forall>k \<in> fst ` set rest. fst up < k"
    using Cons.prems by auto
  show ?case
  proof (cases "v = fst up")
    case True
    then show ?thesis using Cons.prems by simp
  next
    case False
    show ?thesis
    proof (cases "v < fst up")
      case True
      then show ?thesis using False Cons.prems by auto
    next
      case nl: False
      then have "fst up < v" using False by simp
      then have "\<forall>k \<in> fst ` set (mapSet rest v e). fst up < k"
        using lt unfolding mapSet_keys by simp
      then show ?thesis
        using False nl Cons.IH[OF r] by auto
    qed
  qed
qed

lemma calcIteratedUpdate_loop_closed:
  assumes "set vs \<subseteq> fst ` set update" and "distinct vs"
    and "sorted_wrt (<) (map fst nu)"
    and "calcIteratedUpdate_loop solve update meterfunc vs rec nu = Inr (res, rec')"
  shows "addGuard rec' = addGuard rec
     \<and> (res = None \<longrightarrow> \<not> (\<exists>cfs. closedForms solve update (knownPreRecurrences rec) vs cfs))
     \<and> (\<forall>nu'. res = Some nu' \<longrightarrow>
           (\<exists>cfs. closedForms solve update (knownPreRecurrences rec) vs cfs
              \<and> knownPreRecurrences rec' = preRecurrences (knownPreRecurrences rec) vs cfs
              \<and> sorted_wrt (<) (map fst nu')
              \<and> fst ` set nu' = fst ` set nu \<union> set vs
              \<and> (\<forall>i < length vs.
                    map_of nu' (vs ! i) = Some (subs [PurrsN \<mapsto> meterfunc] (cfs ! i)))
              \<and> (\<forall>v. v \<notin> set vs \<longrightarrow> map_of nu' v = map_of nu v)))"
  using assms
proof (induction vs arbitrary: rec nu)
  case Nil
  then show ?case by auto
next
  case (Cons vi rest)
  then obtain rhs where rhs: "map_of update vi = Some rhs"
    by (metis list.set_intros(1) subsetD weak_map_of_SomeI map_of_eq_None_iff not_None_eq)
  let ?known = "knownPreRecurrences rec"
  let ?todo = "subs ?known rhs"
  have fr: "findUpdateRecurrence solve ?todo (Var vi)
              = solve (subs [Var vi \<mapsto> lastX] ?todo) 1 ?todo"
    by (simp add: findUpdateRecurrence_def Let_def)
  show ?case
  proof (cases "findUpdateRecurrence solve ?todo (Var vi)")
    case None
    then have r: "res = None" "rec' = rec"
      using Cons.prems(4) rhs by simp_all
    have "\<not> closedForms solve update ?known (vi # rest) cfs" for cfs
      using None rhs fr by (cases cfs) auto
    then show ?thesis using r by simp
  next
    case (Some cf)
    let ?rec1 = "rec\<lparr>knownPreRecurrences := ?known
                            (Var vi \<mapsto> subs [PurrsN \<mapsto> minus ginacN (Numeric 1)] cf)\<rparr>"
    let ?known1 = "?known(Var vi \<mapsto> subs [PurrsN \<mapsto> minus (Symbol PurrsN) (Numeric 1)] cf)"
    let ?nu1 = "mapSet nu vi (subs [PurrsN \<mapsto> meterfunc] cf)"
    have k1: "knownPreRecurrences ?rec1 = ?known1"
      by (simp add: ginacN_def)
    have sub: "set rest \<subseteq> fst ` set update" and d: "distinct rest" and nin: "vi \<notin> set rest"
      using Cons.prems(1,2) by simp_all
    have s1: "sorted_wrt (<) (map fst ?nu1)"
      using Cons.prems(3) by (rule sorted_mapSet)
    have run: "calcIteratedUpdate_loop solve update meterfunc rest ?rec1 ?nu1 = Inr (res, rec')"
      using Cons.prems(4) rhs Some by simp
    note IH = Cons.IH[OF sub d s1 run, unfolded k1]
    have solved: "solve (subs [Var vi \<mapsto> lastX] ?todo) 1 ?todo = Some cf"
      using Some fr by simp
    have cfeq: "closedForms solve update ?known (vi # rest) cfs
                  \<longleftrightarrow> (\<exists>cfs'. cfs = cf # cfs' \<and> closedForms solve update ?known1 rest cfs')" for cfs
      using rhs solved by (cases cfs) auto
    note IHg = IH[THEN conjunct1]
    note IHn = IH[THEN conjunct2, THEN conjunct1]
    note IHs = IH[THEN conjunct2, THEN conjunct2, rule_format]
    have g: "addGuard rec' = addGuard rec"
      using IHg by simp
    have n: "res = None \<longrightarrow> \<not> (\<exists>cfs. closedForms solve update ?known (vi # rest) cfs)"
      using IHn cfeq by blast
    have s: "\<exists>cfs. closedForms solve update ?known (vi # rest) cfs
              \<and> knownPreRecurrences rec' = preRecurrences ?known (vi # rest) cfs
              \<and> sorted_wrt (<) (map fst nu')
              \<and> fst ` set nu' = fst ` set nu \<union> set (vi # rest)
              \<and> (\<forall>i < length (vi # rest).
                    map_of nu' ((vi # rest) ! i) = Some (subs [PurrsN \<mapsto> meterfunc] (cfs ! i)))
              \<and> (\<forall>v. v \<notin> set (vi # rest) \<longrightarrow> map_of nu' v = map_of nu v)"
      if "res = Some nu'" for nu'
    proof -
      from IHs[OF that] have "\<exists>cfs. closedForms solve update ?known1 rest cfs
              \<and> knownPreRecurrences rec' = preRecurrences ?known1 rest cfs
              \<and> sorted_wrt (<) (map fst nu')
              \<and> fst ` set nu' = fst ` set ?nu1 \<union> set rest
              \<and> (\<forall>i < length rest.
                    map_of nu' (rest ! i) = Some (subs [PurrsN \<mapsto> meterfunc] (cfs ! i)))
              \<and> (\<forall>v. v \<notin> set rest \<longrightarrow> map_of nu' v = map_of ?nu1 v)" .
      then obtain cfs' where
        c: "closedForms solve update ?known1 rest cfs'"
        and k: "knownPreRecurrences rec' = preRecurrences ?known1 rest cfs'"
        and so: "sorted_wrt (<) (map fst nu')"
        and ks: "fst ` set nu' = fst ` set ?nu1 \<union> set rest"
        and pt: "\<forall>i < length rest.
                    map_of nu' (rest ! i) = Some (subs [PurrsN \<mapsto> meterfunc] (cfs' ! i))"
        and ot: "\<forall>v. v \<notin> set rest \<longrightarrow> map_of nu' v = map_of ?nu1 v"
        by (elim exE conjE)
      have hd: "map_of nu' vi = Some (subs [PurrsN \<mapsto> meterfunc] cf)"
        using ot nin by (simp add: map_of_mapSet)
      have pt': "map_of nu' ((vi # rest) ! i) = Some (subs [PurrsN \<mapsto> meterfunc] ((cf # cfs') ! i))"
        if "i < length (vi # rest)" for i
        using that hd pt by (cases i) auto
      have ot': "map_of nu' v = map_of nu v" if "v \<notin> set (vi # rest)" for v
        using that ot by (simp add: map_of_mapSet)
      show ?thesis
      proof (intro exI[of _ "cf # cfs'"] conjI)
        show "closedForms solve update ?known (vi # rest) (cf # cfs')"
          using c cfeq by blast
        show "knownPreRecurrences rec' = preRecurrences ?known (vi # rest) (cf # cfs')"
          using k by simp
        show "sorted_wrt (<) (map fst nu')" by (rule so)
        show "fst ` set nu' = fst ` set nu \<union> set (vi # rest)"
          using ks by (auto simp: mapSet_keys)
        show "\<forall>i < length (vi # rest).
                map_of nu' ((vi # rest) ! i) = Some (subs [PurrsN \<mapsto> meterfunc] ((cf # cfs') ! i))"
          using pt' by blast
        show "\<forall>v. v \<notin> set (vi # rest) \<longrightarrow> map_of nu' v = map_of nu v"
          using ot' by blast
      qed
    qed
    show ?thesis
    proof (intro conjI allI impI)
      show "addGuard rec' = addGuard rec" by (rule g)
      show "\<not> (\<exists>cfs. closedForms solve update ?known (vi # rest) cfs)" if "res = None"
        using n that by blast
      show "\<exists>cfs. closedForms solve update ?known (vi # rest) cfs
              \<and> knownPreRecurrences rec' = preRecurrences ?known (vi # rest) cfs
              \<and> sorted_wrt (<) (map fst nu')
              \<and> fst ` set nu' = fst ` set nu \<union> set (vi # rest)
              \<and> (\<forall>i < length (vi # rest).
                    map_of nu' ((vi # rest) ! i) = Some (subs [PurrsN \<mapsto> meterfunc] (cfs ! i)))
              \<and> (\<forall>v. v \<notin> set (vi # rest) \<longrightarrow> map_of nu' v = map_of nu v)"
        if "res = Some nu'" for nu'
        using that by (rule s)
    qed
  qed
qed
subsection \<open>The exact results of \<open>dependencyOrder\<close> and \<open>calcIterated\<close>\<close>

lemma closedForms_unique:
  "closedForms solve update known vs a \<Longrightarrow> closedForms solve update known vs b \<Longrightarrow> a = b"
proof (induction vs arbitrary: known a b)
  case Nil
  then show ?case by simp
next
  case (Cons v vs)
  from Cons.prems(1) obtain ca a' where a: "a = ca # a'" by (cases a) auto
  from Cons.prems(2) obtain cb b' where b: "b = cb # b'" by (cases b) auto
  from Cons.prems(1) a obtain rhs where rhs: "map_of update v = Some rhs"
    by (auto split: option.splits)
  let ?k = "known(Var v \<mapsto> subs [PurrsN \<mapsto> minus (Symbol PurrsN) (Numeric 1)] ca)"
  have eq: "ca = cb"
    using Cons.prems a b rhs by simp
  have 1: "closedForms solve update ?k vs a'"
    using Cons.prems(1) a rhs by simp
  have 2: "closedForms solve update ?k vs b'"
    using Cons.prems(2) b rhs eq by simp
  have "a' = b'"
    using 1 2 by (rule Cons.IH)
  with eq show ?case using a b by simp
qed

lemma closedForms_length:
  "closedForms solve update known vs cfs \<Longrightarrow> length cfs = length vs"
proof (induction vs arbitrary: known cfs)
  case Nil
  then show ?case by simp
next
  case (Cons v vs)
  then show ?case by (cases cfs) (auto split: option.splits)
qed

lemma dependencyOrder_exact:
  assumes "distinct (map fst update)"
  obtains pre where "resolvedInOrder update pre"
    and "\<And>rec. dependencyOrder rec update
           = Some (pre @ map fst (unresolved update pre),
                   map (\<lambda>up. (fst up, subs (representativeSubs (unresolved update pre)) (snd up)))
                     update,
                   rec\<lparr>addGuard := addGuard rec @ representativeEqs (unresolved update pre)\<rparr>)"
    and "distinct (pre @ map fst (unresolved update pre))"
    and "set (pre @ map fst (unresolved update pre)) = fst ` set update"
proof -
  have e: "{} = set ([]::VariableIdx list)" by simp
  from dependencyOrder_loop_exact[OF assms e]
  obtain new where
    n: "distinct ([] @ new)" "set ([] @ new) \<subseteq> fst ` set update"
      "\<forall>i < length new. \<exists>rhs. (new ! i, rhs) \<in> set update
              \<and> ready update (set [] \<union> set (take i new)) (new ! i, rhs)"
      "\<forall>up \<in> set update. \<not> ready update (set ([] @ new)) up"
      "\<forall>g. dependencyOrder_loop update {} [] g
           = Some (([] @ new) @ map fst (unresolved update ([] @ new)),
                   map (\<lambda>up. (fst up,
                          subs (representativeSubs (unresolved update ([] @ new))) (snd up))) update,
                   g @ representativeEqs (unresolved update ([] @ new)))"
    by auto
  have "\<exists>up \<in> set update. fst up = new ! i \<and> ready update (set (take i new)) up"
    if "i < length new" for i
  proof -
    from n(3) that obtain rhs where "(new ! i, rhs) \<in> set update"
      "ready update (set [] \<union> set (take i new)) (new ! i, rhs)"
      by blast
    then show ?thesis
      by (intro bexI[of _ "(new ! i, rhs)"]) simp_all
  qed
  then have r: "resolvedInOrder update new"
    unfolding resolvedInOrder_def using n(1,2,4) by simp
  have d: "dependencyOrder rec update
           = Some (new @ map fst (unresolved update new),
                   map (\<lambda>up. (fst up, subs (representativeSubs (unresolved update new)) (snd up)))
                     update,
                   rec\<lparr>addGuard := addGuard rec @ representativeEqs (unresolved update new)\<rparr>)"
    for rec
    using n(5)[rule_format, of "addGuard rec"] by (simp add: dependencyOrder_def)
  have mu: "map fst (unresolved update new) = filter (\<lambda>v. v \<notin> set new) (map fst update)"
    by (simp add: unresolved_def filter_map comp_def)
  have dist: "distinct (new @ map fst (unresolved update new))"
    using n(1) assms unfolding mu by auto
  have st: "set (new @ map fst (unresolved update new)) = fst ` set update"
    using n(2) unfolding mu by auto
  show thesis
    using r d dist st by (rule that)
qed

lemma calcIterated_exact:
  assumes dep: "dependencyOrder Recurrence_new (linUpdate rule)
                  = Some (ord, update', Recurrence_new\<lparr>addGuard := eqs\<rparr>)"
    and keys: "map fst update' = map fst (linUpdate rule)"
    and dist: "distinct ord" and st: "set ord = fst ` set (linUpdate rule)"
    and du: "distinct (map fst (linUpdate rule))"
  obtains ok rule' where
    "calcIterated solve rule meterfunc = Some (Inr (ok, rule'))"
    and "ok \<longleftrightarrow> (\<exists>cfs c. closedForms solve update' Map.empty ord cfs
                \<and> solve (Add lastX (subs (preRecurrences Map.empty ord cfs) (linCost rule)))
                     0 (Numeric 0) = Some c)"
    and "\<And>cfs c. closedForms solve update' Map.empty ord cfs \<Longrightarrow>
           solve (Add lastX (subs (preRecurrences Map.empty ord cfs) (linCost rule)))
             0 (Numeric 0) = Some c \<Longrightarrow>
           rule' = rule\<lparr>linUpdate := linUpdate rule', linCost := subs [PurrsN \<mapsto> meterfunc] c,
                        linGuard := linGuard rule @ eqs\<rparr>
           \<and> sorted_wrt (<) (map fst (linUpdate rule'))
           \<and> fst ` set (linUpdate rule') = fst ` set (linUpdate rule)
           \<and> (\<forall>i < length ord.
                 map_of (linUpdate rule') (ord ! i) = Some (subs [PurrsN \<mapsto> meterfunc] (cfs ! i)))"
    and "\<not> ok \<Longrightarrow> rule' = rule"
proof -
  let ?rec1 = "Recurrence_new\<lparr>addGuard := eqs\<rparr>"
  have K: "fst ` set update' = fst ` set (linUpdate rule)"
    using keys by (metis set_map)
  have sub: "set ord \<subseteq> fst ` set update'"
    using st K by simp
  have len: "length ord = length update'"
    using dist st du keys by (metis distinct_card length_map set_map)
  have k0: "knownPreRecurrences ?rec1 = Map.empty"
    by (simp add: Recurrence_new_def)
  from calcIteratedUpdate_loop_props[OF sub, of solve meterfunc ?rec1 "[]"]
  obtain res rec' where
    l: "calcIteratedUpdate_loop solve update' meterfunc ord ?rec1 [] = Inr (res, rec')"
    by (elim exE conjE)
  have s0: "sorted_wrt (<) (map fst ([]::UpdateMap))" by simp
  note cl = calcIteratedUpdate_loop_closed[OF sub dist s0 l, unfolded k0]
  note clg = cl[THEN conjunct1]
  note cln = cl[THEN conjunct2, THEN conjunct1]
  note cls = cl[THEN conjunct2, THEN conjunct2, rule_format]
  have cu: "calcIteratedUpdate solve Recurrence_new (linUpdate rule) meterfunc []
              = Some (Inr (res, rec'))"
    using dep len l by (simp add: calcIteratedUpdate_def)
  let ?P = "\<lambda>cfs c. closedForms solve update' Map.empty ord cfs
                \<and> solve (Add lastX (subs (preRecurrences Map.empty ord cfs) (linCost rule)))
                     0 (Numeric 0) = Some c"
  show thesis
  proof (cases res)
    case None
    have r: "calcIterated solve rule meterfunc = Some (Inr (False, rule))"
      using cu None by (simp add: calcIterated_def)
    have no: "\<not> (\<exists>cfs. closedForms solve update' Map.empty ord cfs)"
      using cln None by simp
    show ?thesis
    proof (rule that[of False rule])
      show "calcIterated solve rule meterfunc = Some (Inr (False, rule))" by (rule r)
      show "False \<longleftrightarrow> (\<exists>cfs c. ?P cfs c)" using no by blast
      show "rule = rule\<lparr>linUpdate := linUpdate rule, linCost := subs [PurrsN \<mapsto> meterfunc] c,
                        linGuard := linGuard rule @ eqs\<rparr>
           \<and> sorted_wrt (<) (map fst (linUpdate rule))
           \<and> fst ` set (linUpdate rule) = fst ` set (linUpdate rule)
           \<and> (\<forall>i < length ord.
                 map_of (linUpdate rule) (ord ! i) = Some (subs [PurrsN \<mapsto> meterfunc] (cfs ! i)))"
        if "closedForms solve update' Map.empty ord cfs" for cfs c
        using no that by blast
      show "rule = rule" ..
    qed
  next
    case (Some nu')
    from cls[OF Some] obtain cfs where
      c: "closedForms solve update' Map.empty ord cfs"
      and k: "knownPreRecurrences rec' = preRecurrences Map.empty ord cfs"
      and so: "sorted_wrt (<) (map fst nu')"
      and ks: "fst ` set nu' = fst ` set ([]::UpdateMap) \<union> set ord"
      and pt: "\<forall>i < length ord.
                    map_of nu' (ord ! i) = Some (subs [PurrsN \<mapsto> meterfunc] (cfs ! i))"
      by (elim exE conjE)
    have g: "addGuard rec' = eqs"
      using clg by simp
    have fc: "findCostRecurrence solve rec' (linCost rule)
                = solve (Add lastX (subs (preRecurrences Map.empty ord cfs) (linCost rule)))
                    0 (Numeric 0)"
      by (simp add: findCostRecurrence_def Let_def k)
    have ks': "fst ` set nu' = fst ` set (linUpdate rule)"
      using ks st by simp
    show ?thesis
    proof (cases "solve (Add lastX (subs (preRecurrences Map.empty ord cfs) (linCost rule)))
                    0 (Numeric 0)")
      case None
      have r: "calcIterated solve rule meterfunc = Some (Inr (False, rule))"
        using cu Some None fc by (simp add: calcIterated_def calcIteratedCost_def)
      have no: "\<not> ?P cfs2 c2" for cfs2 c2
      proof
        assume p: "?P cfs2 c2"
        then have "cfs2 = cfs" using c closedForms_unique by blast
        with p None show False by simp
      qed
      show ?thesis
      proof (rule that[of False rule])
        show "calcIterated solve rule meterfunc = Some (Inr (False, rule))" by (rule r)
        show "False \<longleftrightarrow> (\<exists>cfs c. ?P cfs c)" using no by blast
        show "rule = rule\<lparr>linUpdate := linUpdate rule, linCost := subs [PurrsN \<mapsto> meterfunc] c2,
                        linGuard := linGuard rule @ eqs\<rparr>
           \<and> sorted_wrt (<) (map fst (linUpdate rule))
           \<and> fst ` set (linUpdate rule) = fst ` set (linUpdate rule)
           \<and> (\<forall>i < length ord.
                 map_of (linUpdate rule) (ord ! i) = Some (subs [PurrsN \<mapsto> meterfunc] (cfs2 ! i)))"
          if "closedForms solve update' Map.empty ord cfs2"
            and "solve (Add lastX (subs (preRecurrences Map.empty ord cfs2) (linCost rule)))
                    0 (Numeric 0) = Some c2" for cfs2 c2
          using no[of cfs2 c2] that by blast
        show "rule = rule" ..
      qed
    next
      case sc: (Some cst)
      let ?rule' = "rule\<lparr>linUpdate := nu', linCost := subs [PurrsN \<mapsto> meterfunc] cst,
                          linGuard := linGuard rule @ eqs\<rparr>"
      have r: "calcIterated solve rule meterfunc = Some (Inr (True, ?rule'))"
        using cu Some sc fc g by (simp add: calcIterated_def calcIteratedCost_def)
      show ?thesis
      proof (rule that[of True ?rule'])
        show "calcIterated solve rule meterfunc = Some (Inr (True, ?rule'))" by (rule r)
        show "True \<longleftrightarrow> (\<exists>cfs c. ?P cfs c)" using c sc by blast
        show "?rule' = rule\<lparr>linUpdate := linUpdate ?rule', linCost := subs [PurrsN \<mapsto> meterfunc] c2,
                        linGuard := linGuard rule @ eqs\<rparr>
           \<and> sorted_wrt (<) (map fst (linUpdate ?rule'))
           \<and> fst ` set (linUpdate ?rule') = fst ` set (linUpdate rule)
           \<and> (\<forall>i < length ord.
                 map_of (linUpdate ?rule') (ord ! i) = Some (subs [PurrsN \<mapsto> meterfunc] (cfs2 ! i)))"
          if a: "closedForms solve update' Map.empty ord cfs2"
            and b: "solve (Add lastX (subs (preRecurrences Map.empty ord cfs2) (linCost rule)))
                    0 (Numeric 0) = Some c2" for cfs2 c2
        proof -
          have e: "cfs2 = cfs" using a c by (rule closedForms_unique)
          with b sc have e2: "c2 = cst" by simp
          show ?thesis
            unfolding e e2 using so ks' pt by simp
        qed
        show "?rule' = rule" if "\<not> True"
          using that by simp
      qed
    qed
  qed
qed

lemma ready_mono:
  assumes "ready update A up" and "A \<subseteq> B" and "fst up \<notin> B"
  shows "ready update B up"
  using assms unfolding ready_def list_ex_iff by blast

lemma resolvedInOrder_subset:
  assumes a: "resolvedInOrder update a" and b: "resolvedInOrder update b"
  shows "set a \<subseteq> set b"
proof -
  have "a ! i \<in> set b" if "i < length a" for i
    using that
  proof (induction i rule: less_induct)
    case (less i)
    from a less.prems obtain up where up: "up \<in> set update" "fst up = a ! i"
      "ready update (set (take i a)) up"
      unfolding resolvedInOrder_def by blast
    have sub: "set (take i a) \<subseteq> set b"
    proof
      fix x assume "x \<in> set (take i a)"
      then obtain j where j: "j < i" "j < length a" "x = a ! j"
        by (auto simp: in_set_conv_nth)
      with less.IH show "x \<in> set b" by simp
    qed
    show ?case
    proof (rule ccontr)
      assume "a ! i \<notin> set b"
      then have "fst up \<notin> set b" using up(2) by simp
      with up(3) sub have "ready update (set b) up" by (rule ready_mono)
      moreover have "\<not> ready update (set b) up"
        using b up(1) unfolding resolvedInOrder_def by blast
      ultimately show False by contradiction
    qed
  qed
  then show ?thesis by (auto simp: in_set_conv_nth)
qed

lemma resolvedInOrder_unresolved:
  assumes "resolvedInOrder update a" and "resolvedInOrder update b"
  shows "unresolved update a = unresolved update b"
proof -
  have "set a = set b"
    using resolvedInOrder_subset[OF assms] resolvedInOrder_subset[OF assms(2,1)] by blast
  then show ?thesis by (simp add: unresolved_def)
qed

lemma closedForms_total:
  assumes "\<forall>rhs i init. solve rhs i init \<noteq> None" and "set vs \<subseteq> fst ` set update"
  shows "\<exists>cfs. closedForms solve update known vs cfs"
  using assms(2)
proof (induction vs arbitrary: known)
  case Nil
  show ?case by simp
next
  case (Cons v vs)
  then obtain rhs where rhs: "map_of update v = Some rhs"
    by (metis list.set_intros(1) subsetD weak_map_of_SomeI map_of_eq_None_iff not_None_eq)
  from assms(1) obtain cf where
    cf: "solve (subs [Var v \<mapsto> lastX] (subs known rhs)) 1 (subs known rhs) = Some cf"
    by blast
  have "set vs \<subseteq> fst ` set update" using Cons.prems by simp
  from Cons.IH[OF this] obtain cfs where
    "closedForms solve update
       (known(Var v \<mapsto> subs [PurrsN \<mapsto> minus (Symbol PurrsN) (Numeric 1)] cf)) vs cfs"
    by blast
  with rhs cf have "closedForms solve update known (v # vs) (cf # cfs)" by simp
  then show ?case by blast
qed

lemma calcIterated_guard_exact:
  assumes dep: "dependencyOrder Recurrence_new (linUpdate rule)
                  = Some (ord, update', Recurrence_new\<lparr>addGuard := eqs\<rparr>)"
    and keys: "map fst update' = map fst (linUpdate rule)"
    and dist: "distinct ord" and st: "set ord = fst ` set (linUpdate rule)"
    and du: "distinct (map fst (linUpdate rule))"
    and c: "calcIterated solve rule meterfunc = Some (Inr (ok, rule'))"
  shows "if ok then linGuard rule' = linGuard rule @ eqs else rule' = rule"
proof (rule calcIterated_exact[OF dep keys dist st du, of solve meterfunc])
  fix ok0 rule0
  assume r: "calcIterated solve rule meterfunc = Some (Inr (ok0, rule0))"
    and iff: "ok0 \<longleftrightarrow> (\<exists>cfs c. closedForms solve update' Map.empty ord cfs
                \<and> solve (Add lastX (subs (preRecurrences Map.empty ord cfs) (linCost rule)))
                     0 (Numeric 0) = Some c)"
    and shape: "\<And>cfs c. closedForms solve update' Map.empty ord cfs \<Longrightarrow>
           solve (Add lastX (subs (preRecurrences Map.empty ord cfs) (linCost rule)))
             0 (Numeric 0) = Some c \<Longrightarrow>
           rule0 = rule\<lparr>linUpdate := linUpdate rule0, linCost := subs [PurrsN \<mapsto> meterfunc] c,
                        linGuard := linGuard rule @ eqs\<rparr>
           \<and> sorted_wrt (<) (map fst (linUpdate rule0))
           \<and> fst ` set (linUpdate rule0) = fst ` set (linUpdate rule)
           \<and> (\<forall>i < length ord.
                 map_of (linUpdate rule0) (ord ! i) = Some (subs [PurrsN \<mapsto> meterfunc] (cfs ! i)))"
    and same: "\<not> ok0 \<Longrightarrow> rule0 = rule"
  have e: "ok0 = ok" "rule0 = rule'" using r c by simp_all
  show ?thesis
  proof (cases ok0)
    case True
    with iff obtain cfs cst where
      1: "closedForms solve update' Map.empty ord cfs"
      and 2: "solve (Add lastX (subs (preRecurrences Map.empty ord cfs) (linCost rule)))
             0 (Numeric 0) = Some cst"
      by blast
    from shape[OF 1 2] have
      "rule0 = rule\<lparr>linUpdate := linUpdate rule0, linCost := subs [PurrsN \<mapsto> meterfunc] cst,
                        linGuard := linGuard rule @ eqs\<rparr>"
      by (rule conjunct1)
    then have "linGuard rule0
                 = linGuard (rule\<lparr>linUpdate := linUpdate rule0,
                                  linCost := subs [PurrsN \<mapsto> meterfunc] cst,
                                  linGuard := linGuard rule @ eqs\<rparr>)"
      by (rule arg_cong)
    then have "linGuard rule0 = linGuard rule @ eqs"
      by simp
    then show ?thesis using True e by simp
  next
    case False
    with same e show ?thesis by simp
  qed
qed
text \<open>
  Claim C3. For a rule whose update has one entry per variable, \<open>calcIterated\<close> returns
  (it neither diverges nor aborts), after \<open>dependencyOrder\<close> has returned an ordering
  \<open>ord\<close>, an update \<open>update'\<close> and the constraints \<open>eqs\<close> of \<open>addGuard\<close>. It returns
  true if and only if the solver solves the recurrence of every variable of \<open>ord\<close>, in
  order, and then the recurrence of the cost: if the recurrence of some variable or of
  the cost is not solved, it returns false. If it returns false, the rule is unchanged.
  If it returns true, the update maps every variable of \<open>ord\<close> to the solution of its
  recurrence at \<open>n := meterfunc\<close> and has the variables of the old update, in the order
  of the indices; the cost is the solution of the recurrence of the cost at
  \<open>n := meterfunc\<close>; the guard is the old guard followed by \<open>eqs\<close>; nothing else has
  changed. With a solver that solves nothing it returns false, with one that solves
  everything it returns true.
\<close>

theorem calcIterated_spec:
  assumes "distinct (map fst (linUpdate rule))"
  shows "\<exists>ok rule' ord update' eqs.
      calcIterated solve rule meterfunc = Some (Inr (ok, rule'))
      \<and> dependencyOrder Recurrence_new (linUpdate rule)
            = Some (ord, update', Recurrence_new\<lparr>addGuard := eqs\<rparr>)
      \<and> (ok \<longleftrightarrow> (\<exists>cfs c. closedForms solve update' Map.empty ord cfs
                \<and> solve (Add lastX (subs (preRecurrences Map.empty ord cfs) (linCost rule)))
                     0 (Numeric 0) = Some c))
      \<and> (\<forall>cfs c. closedForms solve update' Map.empty ord cfs \<longrightarrow>
           solve (Add lastX (subs (preRecurrences Map.empty ord cfs) (linCost rule)))
             0 (Numeric 0) = Some c \<longrightarrow>
           rule' = rule\<lparr>linUpdate := linUpdate rule', linCost := subs [PurrsN \<mapsto> meterfunc] c,
                        linGuard := linGuard rule @ eqs\<rparr>
           \<and> sorted_wrt (<) (map fst (linUpdate rule'))
           \<and> fst ` set (linUpdate rule') = fst ` set (linUpdate rule)
           \<and> (\<forall>i < length ord.
                 map_of (linUpdate rule') (ord ! i) = Some (subs [PurrsN \<mapsto> meterfunc] (cfs ! i))))
      \<and> (\<not> ok \<longrightarrow> rule' = rule)
      \<and> ((\<forall>rhs i init. solve rhs i init = None) \<longrightarrow> \<not> ok)
      \<and> ((\<forall>rhs i init. solve rhs i init \<noteq> None) \<longrightarrow> ok)"
proof (rule dependencyOrder_exact[OF assms])
  fix pre
  let ?update = "linUpdate rule"
  let ?un = "unresolved ?update pre"
  let ?ord = "pre @ map fst ?un"
  let ?update' = "map (\<lambda>up. (fst up, subs (representativeSubs ?un) (snd up))) ?update"
  let ?eqs = "representativeEqs ?un"
  assume d0: "\<And>rec. dependencyOrder rec ?update
                 = Some (?ord, ?update', rec\<lparr>addGuard := addGuard rec @ ?eqs\<rparr>)"
    and dist: "distinct ?ord" and st: "set ?ord = fst ` set ?update"
  have d: "dependencyOrder Recurrence_new ?update
             = Some (?ord, ?update', Recurrence_new\<lparr>addGuard := ?eqs\<rparr>)"
    using d0[of Recurrence_new] by (simp add: Recurrence_new_def)
  have keys: "map fst ?update' = map fst ?update"
    by (simp add: comp_def)
  have sub: "set ?ord \<subseteq> fst ` set ?update'"
    using st keys by (metis set_map order_refl)
  show ?thesis
  proof (rule calcIterated_exact[OF d keys dist st assms, of solve meterfunc])
    fix ok rule'
    assume r: "calcIterated solve rule meterfunc = Some (Inr (ok, rule'))"
      and iff: "ok \<longleftrightarrow> (\<exists>cfs c. closedForms solve ?update' Map.empty ?ord cfs
                \<and> solve (Add lastX (subs (preRecurrences Map.empty ?ord cfs) (linCost rule)))
                     0 (Numeric 0) = Some c)"
      and shape: "\<And>cfs c. closedForms solve ?update' Map.empty ?ord cfs \<Longrightarrow>
           solve (Add lastX (subs (preRecurrences Map.empty ?ord cfs) (linCost rule)))
             0 (Numeric 0) = Some c \<Longrightarrow>
           rule' = rule\<lparr>linUpdate := linUpdate rule', linCost := subs [PurrsN \<mapsto> meterfunc] c,
                        linGuard := linGuard rule @ ?eqs\<rparr>
           \<and> sorted_wrt (<) (map fst (linUpdate rule'))
           \<and> fst ` set (linUpdate rule') = fst ` set ?update
           \<and> (\<forall>i < length ?ord.
                 map_of (linUpdate rule') (?ord ! i) = Some (subs [PurrsN \<mapsto> meterfunc] (cfs ! i)))"
      and same: "\<not> ok \<Longrightarrow> rule' = rule"
    have none: "\<not> ok" if "\<forall>rhs i init. solve rhs i init = None"
      using iff that by simp
    have all: "ok" if t: "\<forall>rhs i init. solve rhs i init \<noteq> None"
    proof -
      from closedForms_total[OF t sub, of Map.empty] obtain cfs where
        c: "closedForms solve ?update' Map.empty ?ord cfs" by blast
      from t obtain cst where
        "solve (Add lastX (subs (preRecurrences Map.empty ?ord cfs) (linCost rule)))
           0 (Numeric 0) = Some cst"
        by blast
      with c iff show ?thesis by blast
    qed
    show ?thesis
    proof (intro exI[of _ ok] exI[of _ rule'] exI[of _ ?ord] exI[of _ ?update'] exI[of _ ?eqs]
             conjI)
      show "calcIterated solve rule meterfunc = Some (Inr (ok, rule'))" by (rule r)
      show "dependencyOrder Recurrence_new ?update
             = Some (?ord, ?update', Recurrence_new\<lparr>addGuard := ?eqs\<rparr>)" by (rule d)
      show "ok \<longleftrightarrow> (\<exists>cfs c. closedForms solve ?update' Map.empty ?ord cfs
                \<and> solve (Add lastX (subs (preRecurrences Map.empty ?ord cfs) (linCost rule)))
                     0 (Numeric 0) = Some c)" by (rule iff)
      show "\<forall>cfs c. closedForms solve ?update' Map.empty ?ord cfs \<longrightarrow>
           solve (Add lastX (subs (preRecurrences Map.empty ?ord cfs) (linCost rule)))
             0 (Numeric 0) = Some c \<longrightarrow>
           rule' = rule\<lparr>linUpdate := linUpdate rule', linCost := subs [PurrsN \<mapsto> meterfunc] c,
                        linGuard := linGuard rule @ ?eqs\<rparr>
           \<and> sorted_wrt (<) (map fst (linUpdate rule'))
           \<and> fst ` set (linUpdate rule') = fst ` set ?update
           \<and> (\<forall>i < length ?ord.
                 map_of (linUpdate rule') (?ord ! i) = Some (subs [PurrsN \<mapsto> meterfunc] (cfs ! i)))"
        using shape by blast
      show "\<not> ok \<longrightarrow> rule' = rule" using same by blast
      show "(\<forall>rhs i init. solve rhs i init = None) \<longrightarrow> \<not> ok" using none by blast
      show "(\<forall>rhs i init. solve rhs i init \<noteq> None) \<longrightarrow> ok" using all by blast
    qed
  qed
qed

theorem calcIterated_spec_witness:
  "distinct (map fst (linUpdate exampleConstThenCopy))
   \<and> dependencyOrder Recurrence_new (linUpdate exampleConstThenCopy)
        = Some ([0, 1], [(0, Numeric 5), (1, Symbol (Var 0))], Recurrence_new\<lparr>addGuard := []\<rparr>)
   \<and> calcIterated exampleSolver exampleConstThenCopy (Symbol (Var 2)) =
       Some (Inr (True, exampleConstThenCopy\<lparr>linUpdate := [(0, Numeric 5), (1, Numeric 5)],
                          linCost := Mul (Symbol (Var 2)) (Numeric 1)\<rparr>))
   \<and> (\<exists>cfs c. closedForms exampleSolver [(0, Numeric 5), (1, Symbol (Var 0))] Map.empty [0, 1] cfs
         \<and> exampleSolver (Add lastX (subs (preRecurrences Map.empty [0, 1] cfs)
                                         (linCost exampleConstThenCopy))) 0 (Numeric 0) = Some c)
   \<and> calcIterated exampleSolverCostOnly exampleConstThenCopy (Symbol (Var 2)) =
       Some (Inr (False, exampleConstThenCopy))
   \<and> \<not> (\<exists>cfs c. closedForms exampleSolverCostOnly [(0, Numeric 5), (1, Symbol (Var 0))]
                    Map.empty [0, 1] cfs
         \<and> exampleSolverCostOnly (Add lastX (subs (preRecurrences Map.empty [0, 1] cfs)
                                         (linCost exampleConstThenCopy))) 0 (Numeric 0) = Some c)
   \<and> calcIterated (\<lambda>rhs i init. None) exampleConstThenCopy (Symbol (Var 2)) =
       Some (Inr (False, exampleConstThenCopy))"
proof -
  let ?u' = "[(0, Numeric 5), (1, Symbol (Var 0))] :: UpdateMap"
  have h: "distinct (map fst (linUpdate exampleConstThenCopy))"
    by (simp add: exampleConstThenCopy_def)
  have e: "(case dependencyOrder Recurrence_new (linUpdate exampleConstThenCopy) of
              Some (ord, update', rec') \<Rightarrow> Some (ord, update', addGuard rec') | None \<Rightarrow> None)
           = Some ([0, 1], ?u', [])"
    by code_simp
  have a: "calcIterated exampleSolver exampleConstThenCopy (Symbol (Var 2)) =
       Some (Inr (True, exampleConstThenCopy\<lparr>linUpdate := [(0, Numeric 5), (1, Numeric 5)],
                          linCost := Mul (Symbol (Var 2)) (Numeric 1)\<rparr>))"
    by code_simp
  have b: "calcIterated exampleSolverCostOnly exampleConstThenCopy (Symbol (Var 2)) =
       Some (Inr (False, exampleConstThenCopy))"
    by code_simp
  from calcIterated_spec [OF h, of exampleSolver "Symbol (Var 2)"]
  obtain ok rule' ord update' eqs where
    1: "calcIterated exampleSolver exampleConstThenCopy (Symbol (Var 2)) = Some (Inr (ok, rule'))"
    and 2: "dependencyOrder Recurrence_new (linUpdate exampleConstThenCopy)
            = Some (ord, update', Recurrence_new\<lparr>addGuard := eqs\<rparr>)"
    and 3: "ok \<longleftrightarrow> (\<exists>cfs c. closedForms exampleSolver update' Map.empty ord cfs
                \<and> exampleSolver (Add lastX (subs (preRecurrences Map.empty ord cfs)
                                   (linCost exampleConstThenCopy))) 0 (Numeric 0) = Some c)"
    by (elim exE conjE)
  have o: "ord = [0, 1]" "update' = ?u'" "eqs = []" using 2 e by simp_all
  have d: "dependencyOrder Recurrence_new (linUpdate exampleConstThenCopy)
        = Some ([0, 1], ?u', Recurrence_new\<lparr>addGuard := []\<rparr>)"
    using 2 unfolding o .
  have "ok" using 1 a by simp
  then have pos: "\<exists>cfs c. closedForms exampleSolver ?u' Map.empty [0, 1] cfs
         \<and> exampleSolver (Add lastX (subs (preRecurrences Map.empty [0, 1] cfs)
                                         (linCost exampleConstThenCopy))) 0 (Numeric 0) = Some c"
    using 3 unfolding o by simp
  from calcIterated_spec [OF h, of exampleSolverCostOnly "Symbol (Var 2)"]
  obtain ok rule' ord update' eqs where
    1: "calcIterated exampleSolverCostOnly exampleConstThenCopy (Symbol (Var 2))
          = Some (Inr (ok, rule'))"
    and 2: "dependencyOrder Recurrence_new (linUpdate exampleConstThenCopy)
            = Some (ord, update', Recurrence_new\<lparr>addGuard := eqs\<rparr>)"
    and 3: "ok \<longleftrightarrow> (\<exists>cfs c. closedForms exampleSolverCostOnly update' Map.empty ord cfs
                \<and> exampleSolverCostOnly (Add lastX (subs (preRecurrences Map.empty ord cfs)
                                   (linCost exampleConstThenCopy))) 0 (Numeric 0) = Some c)"
    by (elim exE conjE)
  have o: "ord = [0, 1]" "update' = ?u'" using 2 d by simp_all
  have "\<not> ok" using 1 b by simp
  then have neg: "\<not> (\<exists>cfs c. closedForms exampleSolverCostOnly ?u' Map.empty [0, 1] cfs
         \<and> exampleSolverCostOnly (Add lastX (subs (preRecurrences Map.empty [0, 1] cfs)
                                         (linCost exampleConstThenCopy))) 0 (Numeric 0) = Some c)"
    using 3 unfolding o by simp
  have c: "calcIterated (\<lambda>rhs i init. None) exampleConstThenCopy (Symbol (Var 2)) =
       Some (Inr (False, exampleConstThenCopy))"
    by code_simp
  from h d a pos b neg c show ?thesis
    by (intro conjI)
qed
text \<open>
  Claim C4 at the update \<open>x0 := 5, x1 := x0\<close>, with the metering function 1. The
  ordering is \<open>x0, x1\<close>. The closed form of \<open>x0\<close> is 5; it replaces \<open>x0\<close> in the update of
  \<open>x1\<close> before the recurrence of \<open>x1\<close> and its initial condition are built, so that the
  initial condition is \<open>x1(1) = 5\<close> and the closed form of \<open>x1\<close> is 5. One iteration of
  the loop gives \<open>x1\<close> the old value of \<open>x0\<close>: where that is 0, the update of the
  accelerated rule and the update of the rule differ.
\<close>

theorem calcIterated_initial_condition:
  "calcIterated exampleSolver exampleConstThenCopy (Numeric 1) =
      Some (Inr (True, exampleConstThenCopy\<lparr>linUpdate := [(0, Numeric 5), (1, Numeric 5)],
                         linCost := Mul (Numeric 1) (Numeric 1)\<rparr>))
   \<and> map_of (linUpdate exampleConstThenCopy) 1 = Some (Symbol (Var 0))
   \<and> eval (\<lambda>s. 0) (\<lambda>n. 0) (Numeric 5) = 5
   \<and> eval (\<lambda>s. 0) (\<lambda>n. 0) (Symbol (Var 0)) = 0
   \<and> findUpdateRecurrence exampleSolver
         (subs [Var 0 \<mapsto> Numeric 5] (Symbol (Var 0))) (Var 1)
       = exampleSolver (Numeric 5) 1 (Numeric 5)"
  by code_simp


text \<open>
  Claim C5. For an update with one entry per variable, \<open>dependencyOrder\<close> returns an
  ordering in which every updated variable occurs exactly once. There is a list \<open>pre\<close>
  of the variables that can be ordered without breaking a cycle, and for every such
  list the result of \<open>dependencyOrder\<close> is fixed: the ordering lists these variables
  (each after the updated variables that its right-hand side mentions) and then the
  unresolved ones in the order of the update; the first unresolved variable is the
  representative, every other unresolved variable is replaced by the representative in
  every right-hand side of the update, and for every other unresolved variable the
  equation of the representative and that variable is appended to \<open>addGuard\<close>. When no
  variable is unresolved, the update and \<open>addGuard\<close> are unchanged. When \<open>calcIterated\<close>
  returns true, the guard of the rule it was given is the old guard followed by these
  equations; when it returns false, the rule is unchanged. (\<open>calcIterated\<close> has the rule
  and no store among its arguments.)
\<close>

theorem dependencyOrder_spec:
  assumes "distinct (map fst update)"
  shows "(\<exists>ord update' rec'.
            dependencyOrder rec update = Some (ord, update', rec')
            \<and> distinct ord \<and> set ord = fst ` set update)
     \<and> (\<exists>pre. resolvedInOrder update pre)
     \<and> (\<forall>pre. resolvedInOrder update pre \<longrightarrow>
           (\<exists>pre'. set pre' = set pre \<and> resolvedInOrder update pre'
              \<and> dependencyOrder rec update
                   = Some (pre' @ map fst (unresolved update pre),
                           map (\<lambda>up. (fst up,
                                  subs (representativeSubs (unresolved update pre)) (snd up)))
                             update,
                           rec\<lparr>addGuard := addGuard rec
                                  @ representativeEqs (unresolved update pre)\<rparr>))
           \<and> (\<forall>solve rule meterfunc ok rule'.
                 linUpdate rule = update \<longrightarrow>
                 calcIterated solve rule meterfunc = Some (Inr (ok, rule')) \<longrightarrow>
                 (if ok
                  then linGuard rule'
                         = linGuard rule @ representativeEqs (unresolved update pre)
                  else rule' = rule)))"
proof (rule dependencyOrder_exact[OF assms])
  fix pre0
  let ?un = "unresolved update pre0"
  let ?ord = "pre0 @ map fst ?un"
  let ?update' = "map (\<lambda>up. (fst up, subs (representativeSubs ?un) (snd up))) update"
  let ?eqs = "representativeEqs ?un"
  assume r0: "resolvedInOrder update pre0"
    and d0: "\<And>rec. dependencyOrder rec update
                 = Some (?ord, ?update', rec\<lparr>addGuard := addGuard rec @ ?eqs\<rparr>)"
    and dist: "distinct ?ord" and st: "set ?ord = fst ` set update"
  have A: "\<exists>ord update' rec'.
            dependencyOrder rec update = Some (ord, update', rec')
            \<and> distinct ord \<and> set ord = fst ` set update"
    using d0[of rec] dist st by blast
  have B: "\<exists>pre. resolvedInOrder update pre"
    using r0 by blast
  have keys: "map fst ?update' = map fst update"
    by (simp add: comp_def)
  have dn: "dependencyOrder Recurrence_new update
             = Some (?ord, ?update', Recurrence_new\<lparr>addGuard := ?eqs\<rparr>)"
    using d0[of Recurrence_new] by (simp add: Recurrence_new_def)
  have G: "if ok then linGuard rule' = linGuard rule @ ?eqs else rule' = rule"
    if u: "linUpdate rule = update"
      and c: "calcIterated solve rule meterfunc = Some (Inr (ok, rule'))"
    for solve rule meterfunc ok rule'
  proof -
    have 1: "dependencyOrder Recurrence_new (linUpdate rule)
               = Some (?ord, ?update', Recurrence_new\<lparr>addGuard := ?eqs\<rparr>)"
      using dn u by simp
    have 2: "map fst ?update' = map fst (linUpdate rule)"
      using keys u by simp
    have 3: "set ?ord = fst ` set (linUpdate rule)"
      using st u by simp
    have 4: "distinct (map fst (linUpdate rule))"
      using assms u by simp
    from 1 2 dist 3 4 c show ?thesis
      by (rule calcIterated_guard_exact)
  qed
  have C: "(\<exists>pre'. set pre' = set pre \<and> resolvedInOrder update pre'
              \<and> dependencyOrder rec update
                   = Some (pre' @ map fst (unresolved update pre),
                           map (\<lambda>up. (fst up,
                                  subs (representativeSubs (unresolved update pre)) (snd up)))
                             update,
                           rec\<lparr>addGuard := addGuard rec
                                  @ representativeEqs (unresolved update pre)\<rparr>))
           \<and> (\<forall>solve rule meterfunc ok rule'.
                 linUpdate rule = update \<longrightarrow>
                 calcIterated solve rule meterfunc = Some (Inr (ok, rule')) \<longrightarrow>
                 (if ok
                  then linGuard rule'
                         = linGuard rule @ representativeEqs (unresolved update pre)
                  else rule' = rule))"
    if r: "resolvedInOrder update pre" for pre
  proof -
    have un: "unresolved update pre = ?un"
      using r r0 by (rule resolvedInOrder_unresolved)
    have ss: "set pre0 = set pre"
      using resolvedInOrder_subset[OF r r0] resolvedInOrder_subset[OF r0 r] by blast
    have 1: "\<exists>pre'. set pre' = set pre \<and> resolvedInOrder update pre'
              \<and> dependencyOrder rec update
                   = Some (pre' @ map fst (unresolved update pre),
                           map (\<lambda>up. (fst up,
                                  subs (representativeSubs (unresolved update pre)) (snd up)))
                             update,
                           rec\<lparr>addGuard := addGuard rec
                                  @ representativeEqs (unresolved update pre)\<rparr>)"
      unfolding un using ss r0 d0[of rec] by (intro exI[of _ pre0] conjI)
    have 2: "\<forall>solve rule meterfunc ok rule'.
                 linUpdate rule = update \<longrightarrow>
                 calcIterated solve rule meterfunc = Some (Inr (ok, rule')) \<longrightarrow>
                 (if ok
                  then linGuard rule'
                         = linGuard rule @ representativeEqs (unresolved update pre)
                  else rule' = rule)"
      unfolding un using G by blast
    from 1 2 show ?thesis by (rule conjI)
  qed
  from A B C show ?thesis by blast
qed

theorem dependencyOrder_spec_witness:
  "distinct (map fst (linUpdate exampleCycle))
   \<and> resolvedInOrder (linUpdate exampleCycle) []
   \<and> unresolved (linUpdate exampleCycle) [] = linUpdate exampleCycle
   \<and> dependencyOrder Recurrence_new (linUpdate exampleCycle)
        = Some ([0, 1, 2],
                [(0, Add (Symbol (Var 0)) (Symbol (Var 0))), (1, Symbol (Var 0)),
                 (2, Symbol (Var 0))],
                Recurrence_new\<lparr>addGuard :=
                   [Relational relation_equal (Symbol (Var 0)) (Symbol (Var 1)),
                    Relational relation_equal (Symbol (Var 0)) (Symbol (Var 2))]\<rparr>)
   \<and> distinct (map fst (linUpdate exampleConstAndSwap))
   \<and> resolvedInOrder (linUpdate exampleConstAndSwap) [0]
   \<and> dependencyOrder Recurrence_new (linUpdate exampleConstAndSwap)
        = Some ([0, 1, 2],
                [(0, Numeric 5), (1, Symbol (Var 1)), (2, Symbol (Var 1))],
                Recurrence_new\<lparr>addGuard :=
                   [Relational relation_equal (Symbol (Var 1)) (Symbol (Var 2))]\<rparr>)
   \<and> calcIterated exampleSolver exampleConstAndSwap (Symbol (Var 3)) =
       Some (Inr (True, exampleConstAndSwap
                          \<lparr>linUpdate := [(0, Numeric 5), (1, Symbol (Var 1)), (2, Symbol (Var 1))],
                           linCost := Mul (Symbol (Var 3)) (Numeric 1),
                           linGuard := linGuard exampleConstAndSwap
                             @ [Relational relation_equal (Symbol (Var 1)) (Symbol (Var 2))]\<rparr>))"
proof -
  let ?u = "linUpdate exampleCycle"
  let ?v = "linUpdate exampleConstAndSwap"
  have h: "distinct (map fst ?u)"
    by (simp add: exampleCycle_def)
  have r: "resolvedInOrder ?u []"
    by code_simp
  have un: "unresolved ?u [] = ?u"
    by (simp add: unresolved_def)
  have m: "map fst (unresolved ?u []) = [0, 1, 2]"
    "map (\<lambda>up. (fst up, subs (representativeSubs (unresolved ?u [])) (snd up))) ?u
       = [(0, Add (Symbol (Var 0)) (Symbol (Var 0))), (1, Symbol (Var 0)), (2, Symbol (Var 0))]"
    "representativeEqs (unresolved ?u [])
       = [Relational relation_equal (Symbol (Var 0)) (Symbol (Var 1)),
          Relational relation_equal (Symbol (Var 0)) (Symbol (Var 2))]"
    by code_simp+
  from dependencyOrder_spec[OF h, of Recurrence_new, THEN conjunct2, THEN conjunct2,
         rule_format, OF r, THEN conjunct1]
  obtain pre' where p: "set pre' = set ([]::VariableIdx list)"
    and d: "dependencyOrder Recurrence_new ?u
              = Some (pre' @ map fst (unresolved ?u []),
                      map (\<lambda>up. (fst up, subs (representativeSubs (unresolved ?u [])) (snd up))) ?u,
                      Recurrence_new\<lparr>addGuard := addGuard Recurrence_new
                         @ representativeEqs (unresolved ?u [])\<rparr>)"
    by blast
  have "pre' = []" using p by simp
  with d have d1: "dependencyOrder Recurrence_new ?u
        = Some ([0, 1, 2],
                [(0, Add (Symbol (Var 0)) (Symbol (Var 0))), (1, Symbol (Var 0)),
                 (2, Symbol (Var 0))],
                Recurrence_new\<lparr>addGuard :=
                   [Relational relation_equal (Symbol (Var 0)) (Symbol (Var 1)),
                    Relational relation_equal (Symbol (Var 0)) (Symbol (Var 2))]\<rparr>)"
    unfolding m by (simp add: Recurrence_new_def)
  have h2: "distinct (map fst ?v)"
    by (simp add: exampleConstAndSwap_def)
  have r2: "resolvedInOrder ?v [0]"
    by code_simp
  have m2: "map fst (unresolved ?v [0]) = [1, 2]"
    "map (\<lambda>up. (fst up, subs (representativeSubs (unresolved ?v [0])) (snd up))) ?v
       = [(0, Numeric 5), (1, Symbol (Var 1)), (2, Symbol (Var 1))]"
    "representativeEqs (unresolved ?v [0])
       = [Relational relation_equal (Symbol (Var 1)) (Symbol (Var 2))]"
    by code_simp+
  note spec2 = dependencyOrder_spec[OF h2, of Recurrence_new, THEN conjunct2, THEN conjunct2,
         rule_format, OF r2]
  from spec2[THEN conjunct1]
  obtain pre2 where p2: "set pre2 = set [0::nat]" and rp2: "resolvedInOrder ?v pre2"
    and d2: "dependencyOrder Recurrence_new ?v
              = Some (pre2 @ map fst (unresolved ?v [0]),
                      map (\<lambda>up. (fst up, subs (representativeSubs (unresolved ?v [0])) (snd up))) ?v,
                      Recurrence_new\<lparr>addGuard := addGuard Recurrence_new
                         @ representativeEqs (unresolved ?v [0])\<rparr>)"
    by blast
  have "distinct pre2" using rp2 by (simp add: resolvedInOrder_def)
  with p2 have "pre2 = [0]"
    by (cases pre2; cases "tl pre2") auto
  with d2 have d3: "dependencyOrder Recurrence_new ?v
        = Some ([0, 1, 2],
                [(0, Numeric 5), (1, Symbol (Var 1)), (2, Symbol (Var 1))],
                Recurrence_new\<lparr>addGuard :=
                   [Relational relation_equal (Symbol (Var 1)) (Symbol (Var 2))]\<rparr>)"
    unfolding m2 by (simp add: Recurrence_new_def)
  have c: "calcIterated exampleSolver exampleConstAndSwap (Symbol (Var 3)) =
       Some (Inr (True, exampleConstAndSwap
                          \<lparr>linUpdate := [(0, Numeric 5), (1, Symbol (Var 1)), (2, Symbol (Var 1))],
                           linCost := Mul (Symbol (Var 3)) (Numeric 1),
                           linGuard := linGuard exampleConstAndSwap
                             @ [Relational relation_equal (Symbol (Var 1)) (Symbol (Var 2))]\<rparr>))"
    by code_simp
  from h r un d1 h2 r2 d3 c show ?thesis
    by (intro conjI)
qed

section \<open>The initial location has no incoming rule\<close>

text \<open>
  Claim C6. On a store that satisfies the invariants of the data model, after
  \<open>ensureProperInitialLocation\<close> no rule enters the initial location. If a rule entered
  the old initial location, the call returns true, the new initial location \<open>S\<close> is a
  location that the store did not have, it is the one location added, and the one rule
  added leads from \<open>S\<close> to the old initial location, with an empty guard, cost 0 and no
  update. Otherwise the call returns false and the store is unchanged.
\<close>

theorem ensureProperInitialLocation_spec:
  assumes "wellformed its"
    and "ensureProperInitialLocation its = (changed, its')"
  shows "\<not> hasTransitionsTo its' (initialLocation its')
     \<and> (if hasTransitionsTo its (initialLocation its)
        then changed
             \<and> initialLocation its' \<notin> set (locations its)
             \<and> locations its' = locations its @ [initialLocation its']
             \<and> rules its' = rules its
                  @ [(nextTransIdx its,
                      \<lparr>getLhsLoc = initialLocation its', getGuard = [], getCost = Numeric 0,
                       getRhss = [(initialLocation its, [])]\<rparr>)]
        else \<not> changed \<and> its' = its)"
proof (cases "hasTransitionsTo its (initialLocation its)")
  case False
  then show ?thesis
    using assms(2) by (auto simp: ensureProperInitialLocation_def)
next
  case True
  let ?S = "nextUnusedLocation its"
  have fresh: "?S \<notin> set (locations its)"
    using assms(1) by (auto simp: wellformed_def)
  have res: "changed"
    "its' = setInitialLocation
              (addRule (snd (addLocation its)) (dummyRule ?S (initialLocation its))) ?S"
    using assms(2) True
    by (auto simp: ensureProperInitialLocation_def addLocation_def Let_def)
  have init: "initialLocation its' = ?S"
    by (simp add: res(2) setInitialLocation_def addRule_def addLocation_def)
  have old: "\<not> hasTransitionsTo its ?S"
    using assms(1) fresh by (auto simp: wellformed_def hasTransitionsTo_def)
  have neq: "initialLocation its \<noteq> ?S"
    using assms(1) fresh by (auto simp: wellformed_def)
  have "\<not> hasTransitionsTo its' ?S"
    using old neq
    by (auto simp: res(2) hasTransitionsTo_def setInitialLocation_def addRule_def
          addLocation_def dummyRule_def getRhsLocs_def)
  then show ?thesis
    using True res(1) init fresh
    by (simp add: res(2) setInitialLocation_def addRule_def addLocation_def dummyRule_def)
qed

theorem ensureProperInitialLocation_spec_witness:
  "wellformed exampleLoopAtStart
   \<and> hasTransitionsTo exampleLoopAtStart (initialLocation exampleLoopAtStart)
   \<and> ensureProperInitialLocation exampleLoopAtStart =
       (True, exampleLoopAtStart\<lparr>rules := [(0, plainRule 0 0 (Numeric 1)), (1, dummyRule 1 0)],
                 nextTransIdx := 2, locations := [0, 1], nextUnusedLocation := 2,
                 initialLocation := 1\<rparr>)
   \<and> \<not> hasTransitionsTo
         (exampleLoopAtStart\<lparr>rules := [(0, plainRule 0 0 (Numeric 1)), (1, dummyRule 1 0)],
                 nextTransIdx := 2, locations := [0, 1], nextUnusedLocation := 2,
                 initialLocation := 1\<rparr>) 1"
proof -
  let ?its' = "exampleLoopAtStart\<lparr>rules := [(0, plainRule 0 0 (Numeric 1)), (1, dummyRule 1 0)],
                 nextTransIdx := 2, locations := [0, 1], nextUnusedLocation := 2,
                 initialLocation := 1\<rparr>"
  have h1: "wellformed exampleLoopAtStart"
    by (simp add: wellformed_def exampleLoopAtStart_def plainRule_def getRhsLocs_def)
  have h2: "ensureProperInitialLocation exampleLoopAtStart = (True, ?its')"
    by (simp add: ensureProperInitialLocation_def exampleLoopAtStart_def hasTransitionsTo_def
          plainRule_def getRhsLocs_def addLocation_def addRule_def setInitialLocation_def)
  have h3: "hasTransitionsTo exampleLoopAtStart (initialLocation exampleLoopAtStart)"
    by (simp add: exampleLoopAtStart_def hasTransitionsTo_def plainRule_def getRhsLocs_def)
  have "\<not> hasTransitionsTo ?its' (initialLocation ?its')"
    using ensureProperInitialLocation_spec [OF h1 h2] by blast
  then have "\<not> hasTransitionsTo ?its' 1"
    by simp
  with h1 h2 h3 show ?thesis
    by blast
qed

section \<open>The partial result after a timeout\<close>

lemma getMaxPartialResult_scan_skip:
  assumes "\<not> (getComplexity env (getCost (getRule its r)) > max (cpx res) Const
              \<or> (\<exists>s \<in> set (getVariables (getCost (getRule its r))). isTempVar its s))"
  shows "getMaxPartialResult_scan env its (r # rs) res k steps
           = getMaxPartialResult_scan env its rs res k (steps @ [Skipped r])"
proof -
  have "(getComplexity env (getCost (getRule its r)) \<le> max (cpx res) Const
           \<and> \<not> (\<not> isInfSymbol (getCost (getRule its r))
                 \<and> hasVariableWith (isTempVar its) (getCost (getRule its r)))) = True"
    using assms unfolding hasTempVar_iff by (auto simp: not_less le_max_iff_disj)
  then show ?thesis
    by (simp only: getMaxPartialResult_scan.simps Let_def if_True)
qed

lemma getMaxPartialResult_scan_check:
  assumes "getComplexity env (getCost (getRule its r)) > max (cpx res) Const
              \<or> (\<exists>s \<in> set (getVariables (getCost (getRule its r))). isTempVar its s)"
    and "cpx res < Infty"
  shows "getMaxPartialResult_scan env its (r # rs) res k steps
           = (let res1 = replaceBest res
                   (determineComplexity env its (getGuard (getRule its r))
                      (getCost (getRule its r)) True) (getGuard (getRule its r))
              in if cpx res1 \<ge> Infty then (GotoDone, res1, k, steps @ [Checked r])
                 else if hard env k then (GotoAbort, res1, Suc k, steps @ [Checked r])
                 else getMaxPartialResult_scan env its rs res1 (Suc k) (steps @ [Checked r]))"
proof -
  have "\<not> (getComplexity env (getCost (getRule its r)) \<le> max (cpx res) Const
           \<and> \<not> (\<not> isInfSymbol (getCost (getRule its r))
                 \<and> hasVariableWith (isTempVar its) (getCost (getRule its r))))"
    using assms(1) unfolding hasTempVar_iff by (auto simp: not_le le_max_iff_disj)
  then have "(getComplexity env (getCost (getRule its r)) \<le> max (cpx res) Const
           \<and> \<not> (\<not> isInfSymbol (getCost (getRule its r))
                 \<and> hasVariableWith (isTempVar its) (getCost (getRule its r)))) = False"
    by simp
  then show ?thesis
    using assms(2)
    by (simp only: getMaxPartialResult_scan.simps Let_def if_False replaceBest_def)
       (auto simp: not_le)
qed

declare getMaxPartialResult_scan.simps(2) [simp del]

lemma getMaxPartialResult_scan_spec:
  assumes "cpx res < Infty"
    and "getMaxPartialResult_scan env its rs res k steps = (exit, res', k', steps')"
  shows "\<exists>tr. steps' = steps @ tr
     \<and> partialScanAsAmended
          (\<lambda>i. getComplexity env (getCost (getRule its i)))
          (\<lambda>i. \<exists>s \<in> set (getVariables (getCost (getRule its i))). isTempVar its s)
          (\<lambda>i. determineComplexity env its (getGuard (getRule its i))
                            (getCost (getRule its i)) True)
          (\<lambda>i. getGuard (getRule its i))
          (hard env) res k rs tr res' exit
     \<and> k \<le> k'
     \<and> (exit = GotoDone \<longleftrightarrow> cpx res' \<ge> Infty)
     \<and> (exit = GotoAbort \<longrightarrow> (\<exists>p. k \<le> p \<and> p < k' \<and> hard env p))
     \<and> (exit = ScanEnd \<longrightarrow> length tr = length rs \<and> (\<forall>p. k \<le> p \<and> p < k' \<longrightarrow> \<not> hard env p))"
  using assms
proof (induction rs arbitrary: res k steps)
  case Nil
  then show ?case by (auto simp: not_le)
next
  case (Cons r rs)
  let ?cost = "getCost (getRule its r)"
  let ?chk = "determineComplexity env its (getGuard (getRule its r)) ?cost True"
  let ?temp = "\<exists>s \<in> set (getVariables ?cost). isTempVar its s"
  let ?res1 = "replaceBest res ?chk (getGuard (getRule its r))"
  let ?P = "partialScanAsAmended
          (\<lambda>i. getComplexity env (getCost (getRule its i)))
          (\<lambda>i. \<exists>s \<in> set (getVariables (getCost (getRule its i))). isTempVar its s)
          (\<lambda>i. determineComplexity env its (getGuard (getRule its i))
                            (getCost (getRule its i)) True)
          (\<lambda>i. getGuard (getRule its i))
          (hard env)"
  show ?case
  proof (cases "getComplexity env ?cost > max (cpx res) Const \<or> ?temp")
    case False
    then have run: "getMaxPartialResult_scan env its rs res k (steps @ [Skipped r])
                      = (exit, res', k', steps')"
      using Cons.prems(2) getMaxPartialResult_scan_skip by simp
    from Cons.IH[OF Cons.prems(1) run] obtain tr where
      tr: "steps' = (steps @ [Skipped r]) @ tr" and rest: "?P res k rs tr res' exit"
      and kk: "k \<le> k'"
      and ex: "exit = GotoDone \<longleftrightarrow> cpx res' \<ge> Infty"
        "exit = GotoAbort \<longrightarrow> (\<exists>p. k \<le> p \<and> p < k' \<and> hard env p)"
        "exit = ScanEnd \<longrightarrow> length tr = length rs \<and> (\<forall>p. k \<le> p \<and> p < k' \<longrightarrow> \<not> hard env p)"
      by (elim exE conjE)
    have "?P res k (r # rs) (Skipped r # tr) res' exit"
      using rest False by simp
    then show ?thesis
      using tr kk ex by (intro exI[of _ "Skipped r # tr"]) simp
  next
    case True
    note step = getMaxPartialResult_scan_check[OF True Cons.prems(1), of rs k steps]
    consider (infty) "cpx ?res1 \<ge> Infty"
      | (timeout) "\<not> cpx ?res1 \<ge> Infty" "hard env k"
      | (go) "\<not> cpx ?res1 \<ge> Infty" "\<not> hard env k"
      by blast
    then show ?thesis
    proof cases
      case infty
      have eq: "(exit, res', k', steps') = (GotoDone, ?res1, k, steps @ [Checked r])"
        using Cons.prems(2) step infty by (simp add: Let_def)
      have "?P res k (r # rs) [Checked r] ?res1 GotoDone"
        using True infty by (simp add: Let_def replaceBest_record[symmetric])
      then show ?thesis
        using eq infty by (intro exI[of _ "[Checked r]"]) simp
    next
      case timeout
      have eq: "(exit, res', k', steps') = (GotoAbort, ?res1, Suc k, steps @ [Checked r])"
        using Cons.prems(2) step timeout by (simp add: Let_def)
      have "?P res k (r # rs) [Checked r] ?res1 GotoAbort"
        using True timeout by (simp add: Let_def replaceBest_record[symmetric])
      moreover have "\<exists>p. k \<le> p \<and> p < Suc k \<and> hard env p"
        using timeout(2) by auto
      ultimately show ?thesis
        using eq timeout(1) by (intro exI[of _ "[Checked r]"]) simp
    next
      case go
      have run: "getMaxPartialResult_scan env its rs ?res1 (Suc k) (steps @ [Checked r])
                   = (exit, res', k', steps')"
        using Cons.prems(2) step go by (simp add: Let_def)
      have lt: "cpx ?res1 < Infty" using go(1) by simp
      from Cons.IH[OF lt run] obtain tr where
        tr: "steps' = (steps @ [Checked r]) @ tr" and rest: "?P ?res1 (Suc k) rs tr res' exit"
        and kk: "Suc k \<le> k'"
        and ex: "exit = GotoDone \<longleftrightarrow> cpx res' \<ge> Infty"
          "exit = GotoAbort \<longrightarrow> (\<exists>p. Suc k \<le> p \<and> p < k' \<and> hard env p)"
          "exit = ScanEnd \<longrightarrow> length tr = length rs \<and> (\<forall>p. Suc k \<le> p \<and> p < k' \<longrightarrow> \<not> hard env p)"
        by (elim exE conjE)
      have ex2: "exit = GotoAbort \<longrightarrow> (\<exists>p. k \<le> p \<and> p < k' \<and> hard env p)"
        using ex(2) by (meson Suc_leD)
      have ex3: "exit = ScanEnd \<longrightarrow> (\<forall>p. k \<le> p \<and> p < k' \<longrightarrow> \<not> hard env p)"
      proof (intro impI allI)
        fix p assume e: "exit = ScanEnd" and p: "k \<le> p \<and> p < k'"
        show "\<not> hard env p"
        proof (cases "p = k")
          case True
          then show ?thesis using go(2) by simp
        next
          case False
          then have "Suc k \<le> p" using p by simp
          then show ?thesis using ex(3) e p by simp
        qed
      qed
      have "?P res k (r # rs) (Checked r # tr) res' exit"
        using rest True go by (simp add: Let_def replaceBest_record[symmetric])
      then show ?thesis
        using tr kk ex(1,3) ex2 ex3 by (intro exI[of _ "Checked r # tr"]) simp
    qed
  qed
qed
lemma idxOk_distinct: "idxOk its \<Longrightarrow> distinct (map fst (rules its))"
  by (simp add: idxOk_def strict_sorted_iff)

lemma idxOk_unique:
  "idxOk its \<Longrightarrow> (i, r) \<in> set (rules its) \<Longrightarrow> (i, r') \<in> set (rules its) \<Longrightarrow> r = r'"
  by (rule eq_key_imp_eq_value[OF idxOk_distinct])

lemma getRule_idxOk: "idxOk its \<Longrightarrow> (i, r) \<in> set (rules its) \<Longrightarrow> getRule its i = r"
  using idxOk_distinct by (simp add: getRule_def)

lemma wellformed_idxOk: "wellformed its \<Longrightarrow> idxOk its"
  by (auto simp: wellformed_def idxOk_def)

lemma chainedFrom_refl: "idxOk its \<Longrightarrow> chainedFrom env initial its its"
  by (auto simp: chainedFrom_def idxOk_def)

lemma chainedFromD:
  assumes "chainedFrom env initial its its1"
  shows "idxOk its1" and "nextTransIdx its \<le> nextTransIdx its1"
    and "\<And>x. x \<in> set (rules its1) \<Longrightarrow> fst x < nextTransIdx its \<Longrightarrow> x \<in> set (rules its)"
    and "\<And>x. x \<in> set (rules its) \<Longrightarrow> getLhsLoc (snd x) \<noteq> initial \<Longrightarrow> x \<in> set (rules its1)"
    and "\<And>x. x \<in> set (rules its1) \<Longrightarrow> nextTransIdx its \<le> fst x \<Longrightarrow> isChain env initial (snd x)"
  using assms unfolding chainedFrom_def by blast+

lemma chainedFromI:
  assumes "idxOk its1" and "nextTransIdx its \<le> nextTransIdx its1"
    and "\<And>x. x \<in> set (rules its1) \<Longrightarrow> fst x < nextTransIdx its \<Longrightarrow> x \<in> set (rules its)"
    and "\<And>x. x \<in> set (rules its) \<Longrightarrow> getLhsLoc (snd x) \<noteq> initial \<Longrightarrow> x \<in> set (rules its1)"
    and "\<And>x. x \<in> set (rules its1) \<Longrightarrow> nextTransIdx its \<le> fst x \<Longrightarrow> isChain env initial (snd x)"
  shows "chainedFrom env initial its its1"
  using assms unfolding chainedFrom_def by blast

lemma chainedFrom_trans:
  assumes "chainedFrom env initial its its1" and "chainedFrom env initial its1 its2"
  shows "chainedFrom env initial its its2"
proof (rule chainedFromI)
  note a = chainedFromD[OF assms(1)] and b = chainedFromD[OF assms(2)]
  show "idxOk its2" by (rule b(1))
  show "nextTransIdx its \<le> nextTransIdx its2"
    using a(2) b(2) by (rule le_trans)
  show "x \<in> set (rules its)" if x: "x \<in> set (rules its2)" "fst x < nextTransIdx its" for x
  proof -
    have "fst x < nextTransIdx its1" using x(2) a(2) by simp
    with x(1) have "x \<in> set (rules its1)" by (rule b(3))
    then show ?thesis using x(2) by (rule a(3))
  qed
  show "x \<in> set (rules its2)" if x: "x \<in> set (rules its)" "getLhsLoc (snd x) \<noteq> initial" for x
    using a(4)[OF x] x(2) by (rule b(4))
  show "isChain env initial (snd x)" if x: "x \<in> set (rules its2)" "nextTransIdx its \<le> fst x" for x
  proof (cases "fst x < nextTransIdx its1")
    case True
    with x(1) have "x \<in> set (rules its1)" by (rule b(3))
    then show ?thesis using x(2) by (rule a(5))
  next
    case False
    then have "nextTransIdx its1 \<le> fst x" by simp
    with x(1) show ?thesis by (rule b(5))
  qed
qed

lemma chainedFrom_addRule:
  assumes "idxOk its" and "isChain env initial c"
  shows "chainedFrom env initial its (addRule its c)"
proof -
  have "sorted_wrt (<) (map fst (rules its) @ [nextTransIdx its])"
    using assms(1) by (auto simp: idxOk_def sorted_wrt_append)
  then have "idxOk (addRule its c)"
    using assms(1) by (auto simp: idxOk_def addRule_def less_Suc_eq)
  then show ?thesis
    using assms by (auto simp: chainedFrom_def addRule_def idxOk_def)
qed

lemma chainedFrom_removeRule:
  assumes "idxOk its"
    and "\<forall>x \<in> set (rules its). fst x = first \<longrightarrow> getLhsLoc (snd x) = initial"
  shows "chainedFrom env initial its (removeRule its first)"
proof -
  have "idxOk (removeRule its first)"
    using assms(1) by (auto simp: idxOk_def removeRule_def sorted_wrt_map sorted_wrt_filter)
  then show ?thesis
    using assms by (auto simp: chainedFrom_def removeRule_def idxOk_def)
qed

lemma chainedFrom_deleted:
  assumes "chainedFrom env initial its its1"
    and "i < nextTransIdx its" and "i \<notin> fst ` set (rules its)"
  shows "i \<notin> fst ` set (rules its1)"
proof
  assume "i \<in> fst ` set (rules its1)"
  then obtain x where x: "x \<in> set (rules its1)" "fst x = i" by auto
  with assms(1,2) have "x \<in> set (rules its)" by (simp add: chainedFrom_def)
  with x(2) assms(3) show False by auto
qed

lemma getRule_addRule:
  "i \<in> fst ` set (rules its) \<Longrightarrow> getRule (addRule its c) i = getRule its i"
proof -
  assume "i \<in> fst ` set (rules its)"
  then have "i \<in> dom (map_of (rules its))"
    by (simp add: dom_map_of_conv_image_fst)
  then have "map_of (rules its @ [(nextTransIdx its, c)]) i = map_of (rules its) i"
    by (auto simp: map_add_dom_app_simps)
  then show ?thesis
    by (simp add: getRule_def addRule_def)
qed

lemma map_filter_agree:
  "(\<And>x. x \<in> set xs \<Longrightarrow> f x = g x) \<Longrightarrow> List.map_filter f xs = List.map_filter g xs"
proof (induction xs)
  case Nil
  then show ?case by (simp add: List.map_filter_simps)
next
  case (Cons a xs)
  have "List.map_filter f xs = List.map_filter g xs"
    using Cons.prems by (intro Cons.IH) simp
  moreover have "f a = g a" using Cons.prems by simp
  ultimately show ?case by (simp add: List.map_filter_simps split: option.split)
qed

lemma chainSeconds_rules:
  assumes "first \<in> fst ` set (rules its)"
    and "set seconds \<subseteq> fst ` set (rules its)"
    and "chainSeconds env its first seconds k = (False, its1, k1)"
  shows "its1 = foldl addRule its
           (List.map_filter (\<lambda>second. chainRules env (getRule its first) (getRule its second))
              seconds)"
  using assms
proof (induction seconds arbitrary: its k)
  case Nil
  then show ?case by (simp add: List.map_filter_simps)
next
  case (Cons second rest)
  let ?chained = "chainRules env (getRule its first) (getRule its second)"
  let ?itsA = "case ?chained of Some c \<Rightarrow> addRule its c | None \<Rightarrow> its"
  have sub: "fst ` set (rules its) \<subseteq> fst ` set (rules ?itsA)"
    by (auto simp: addRule_def split: option.splits)
  have same: "getRule ?itsA i = getRule its i" if "i \<in> fst ` set (rules its)" for i
    using that by (auto simp: getRule_addRule split: option.splits)
  from Cons.prems(3) have nh: "\<not> hard env k"
    and run: "chainSeconds env ?itsA first rest (Suc k) = (False, its1, k1)"
    by (auto simp: Let_def split: if_splits)
  have f: "first \<in> fst ` set (rules ?itsA)" and r: "set rest \<subseteq> fst ` set (rules ?itsA)"
    using Cons.prems(1,2) sub by auto
  have eq: "List.map_filter (\<lambda>second. chainRules env (getRule ?itsA first) (getRule ?itsA second)) rest
          = List.map_filter (\<lambda>second. chainRules env (getRule its first) (getRule its second)) rest"
  proof (rule map_filter_agree)
    fix x assume "x \<in> set rest"
    then have "x \<in> fst ` set (rules its)" using Cons.prems(2) by auto
    then show "chainRules env (getRule ?itsA first) (getRule ?itsA x)
                 = chainRules env (getRule its first) (getRule its x)"
      using same[OF Cons.prems(1)] same[of x] by simp
  qed
  from Cons.IH[OF f r run] eq
  have "its1 = foldl addRule ?itsA
           (List.map_filter (\<lambda>second. chainRules env (getRule its first) (getRule its second)) rest)"
    by simp
  then show ?case
    by (cases ?chained) (simp_all add: List.map_filter_simps)
qed

lemma chainSeconds_chainedFrom:
  assumes "idxOk its"
    and "(first, r1) \<in> set (rules its)" and "getLhsLoc r1 = initial"
    and "succ \<in> set (getRhsLocs r1)"
    and "\<forall>second \<in> set seconds. \<exists>r2. (second, r2) \<in> set (rules its) \<and> getLhsLoc r2 = succ"
    and "chainSeconds env its first seconds k = (aborted, its1, k1)"
  shows "chainedFrom env initial its its1 \<and> set (rules its) \<subseteq> set (rules its1) \<and> k \<le> k1
         \<and> (aborted \<longrightarrow> (\<exists>p. k \<le> p \<and> p < k1 \<and> hard env p))"
  using assms(1,2,5,6)
proof (induction seconds arbitrary: its k)
  case Nil
  then show ?case by (simp add: chainedFrom_refl)
next
  case (Cons second rest)
  from Cons.prems(3) obtain r2 where r2: "(second, r2) \<in> set (rules its)" "getLhsLoc r2 = succ"
    by auto
  have g1: "getRule its first = r1" using Cons.prems(1,2) by (rule getRule_idxOk)
  have g2: "getRule its second = r2" using Cons.prems(1) r2(1) by (rule getRule_idxOk)
  let ?chained = "chainRules env r1 r2"
  let ?itsA = "case ?chained of Some c \<Rightarrow> addRule its c | None \<Rightarrow> its"
  have cf: "chainedFrom env initial its ?itsA"
  proof (cases ?chained)
    case None
    then show ?thesis using Cons.prems(1) by (simp add: chainedFrom_refl)
  next
    case (Some c)
    have "isChain env initial c"
      unfolding isChain_def using Some assms(3,4) r2(2) by blast
    with Cons.prems(1) Some show ?thesis by (simp add: chainedFrom_addRule)
  qed
  have sub: "set (rules its) \<subseteq> set (rules ?itsA)"
    by (auto simp: addRule_def split: option.splits)
  show ?case
  proof (cases "hard env k")
    case True
    then have "(aborted, its1, k1) = (True, ?itsA, Suc k)"
      using Cons.prems(4) g1 g2 by (simp add: Let_def)
    then show ?thesis using cf sub True by auto
  next
    case False
    then have run: "chainSeconds env ?itsA first rest (Suc k) = (aborted, its1, k1)"
      using Cons.prems(4) g1 g2 by (simp add: Let_def)
    have okA: "idxOk ?itsA" using cf by (rule chainedFromD(1))
    have fA: "(first, r1) \<in> set (rules ?itsA)" using Cons.prems(2) sub by blast
    have rA: "\<forall>second \<in> set rest. \<exists>r2. (second, r2) \<in> set (rules ?itsA) \<and> getLhsLoc r2 = succ"
      using Cons.prems(3) sub by (meson list.set_intros(2) subsetD)
    from Cons.IH[OF okA fA rA run] have
      ih: "chainedFrom env initial ?itsA its1" "set (rules ?itsA) \<subseteq> set (rules its1)"
        "Suc k \<le> k1" "aborted \<longrightarrow> (\<exists>p. Suc k \<le> p \<and> p < k1 \<and> hard env p)"
      by auto
    have "chainedFrom env initial its its1"
      using cf ih(1) by (rule chainedFrom_trans)
    moreover have "aborted \<longrightarrow> (\<exists>p. k \<le> p \<and> p < k1 \<and> hard env p)"
      using ih(4) by (meson Suc_leD)
    ultimately show ?thesis
      using sub ih(2,3) by auto
  qed
qed

lemma idxOk_less: "idxOk its \<Longrightarrow> x \<in> set (rules its) \<Longrightarrow> fst x < nextTransIdx its"
  by (simp add: idxOk_def)

lemma chainedFrom_old:
  assumes "chainedFrom env initial its its1" and "idxOk its"
    and "(i, r) \<in> set (rules its)" and "(i, r') \<in> set (rules its1)"
  shows "r' = r"
proof -
  have "i < nextTransIdx its" using idxOk_less[OF assms(2,3)] by simp
  then have "(i, r') \<in> set (rules its)"
    using chainedFromD(3)[OF assms(1,4)] by simp
  then show ?thesis using idxOk_unique[OF assms(2) _ assms(3)] by blast
qed

lemma chainFirsts_chainedFrom:
  assumes "idxOk its" and "distinct firsts"
    and "\<forall>first \<in> set firsts. \<exists>r1. (first, r1) \<in> set (rules its) \<and> getLhsLoc r1 = initial
            \<and> succ \<in> set (getRhsLocs r1)"
    and "chainFirsts env its succ firsts k = (aborted, its1, k1)"
  shows "chainedFrom env initial its its1 \<and> k \<le> k1
         \<and> (aborted \<longrightarrow> (\<exists>p. k \<le> p \<and> p < k1 \<and> hard env p))
         \<and> (\<not> aborted \<longrightarrow> (\<forall>first \<in> set firsts. first \<notin> fst ` set (rules its1)))"
  using assms
proof (induction firsts arbitrary: its k)
  case Nil
  then show ?case by (simp add: chainedFrom_refl)
next
  case (Cons first rest)
  from Cons.prems(3) obtain r1 where r1: "(first, r1) \<in> set (rules its)"
    "getLhsLoc r1 = initial" "succ \<in> set (getRhsLocs r1)"
    by auto
  have secs: "\<forall>second \<in> set (getTransitionsFrom its succ).
                \<exists>r2. (second, r2) \<in> set (rules its) \<and> getLhsLoc r2 = succ"
    by (auto simp: getTransitionsFrom_def)
  obtain ab itsA kA where cs:
    "chainSeconds env its first (getTransitionsFrom its succ) k = (ab, itsA, kA)"
    by (cases "chainSeconds env its first (getTransitionsFrom its succ) k") auto
  from chainSeconds_chainedFrom[OF Cons.prems(1) r1 secs cs] have
    cf: "chainedFrom env initial its itsA" and sub: "set (rules its) \<subseteq> set (rules itsA)"
    and kk: "k \<le> kA" and fired: "ab \<longrightarrow> (\<exists>p. k \<le> p \<and> p < kA \<and> hard env p)"
    by auto
  show ?case
  proof (cases ab)
    case True
    then have "(aborted, its1, k1) = (True, itsA, kA)"
      using Cons.prems(4) cs by simp
    then show ?thesis using cf kk fired True by auto
  next
    case False
    let ?itsB = "removeRule itsA first"
    have run: "chainFirsts env ?itsB succ rest kA = (aborted, its1, k1)"
      using Cons.prems(4) cs False by simp
    have okA: "idxOk itsA" using cf by (rule chainedFromD(1))
    have "\<forall>x \<in> set (rules itsA). fst x = first \<longrightarrow> getLhsLoc (snd x) = initial"
    proof (intro ballI impI)
      fix x assume x: "x \<in> set (rules itsA)" "fst x = first"
      then have "(first, snd x) \<in> set (rules itsA)" by (metis prod.collapse)
      from chainedFrom_old[OF cf Cons.prems(1) r1(1) this] r1(2)
      show "getLhsLoc (snd x) = initial" by simp
    qed
    with okA have cfB: "chainedFrom env initial itsA ?itsB"
      by (rule chainedFrom_removeRule)
    have okB: "idxOk ?itsB" using cfB by (rule chainedFromD(1))
    have dr: "distinct rest" and nf: "first \<notin> set rest"
      using Cons.prems(2) by auto
    have restB: "\<forall>first' \<in> set rest. \<exists>r1. (first', r1) \<in> set (rules ?itsB)
            \<and> getLhsLoc r1 = initial \<and> succ \<in> set (getRhsLocs r1)"
    proof
      fix first' assume f': "first' \<in> set rest"
      with Cons.prems(3) obtain r' where r': "(first', r') \<in> set (rules its)"
        "getLhsLoc r' = initial" "succ \<in> set (getRhsLocs r')"
        by auto
      have "first' \<noteq> first" using f' nf by auto
      with r'(1) sub have "(first', r') \<in> set (rules ?itsB)"
        by (auto simp: removeRule_def)
      with r'(2,3) show "\<exists>r1. (first', r1) \<in> set (rules ?itsB)
            \<and> getLhsLoc r1 = initial \<and> succ \<in> set (getRhsLocs r1)"
        by blast
    qed
    from Cons.IH[OF okB dr restB run] have
      ih: "chainedFrom env initial ?itsB its1" "kA \<le> k1"
        "aborted \<longrightarrow> (\<exists>p. kA \<le> p \<and> p < k1 \<and> hard env p)"
        "\<not> aborted \<longrightarrow> (\<forall>first \<in> set rest. first \<notin> fst ` set (rules its1))"
      by auto
    have c1: "chainedFrom env initial its its1"
      using cf cfB ih(1) by (blast intro: chainedFrom_trans)
    have fl: "first < nextTransIdx ?itsB"
      using idxOk_less[OF Cons.prems(1) r1(1)] chainedFromD(2)[OF cf] chainedFromD(2)[OF cfB]
      by simp
    have "first \<notin> fst ` set (rules ?itsB)"
      by (auto simp: removeRule_def)
    with ih(1) fl have gone: "first \<notin> fst ` set (rules its1)"
      by (rule chainedFrom_deleted)
    have fired': "aborted \<longrightarrow> (\<exists>p. k \<le> p \<and> p < k1 \<and> hard env p)"
      using ih(3) kk by (meson le_trans)
    show ?thesis
      using c1 kk ih(2,4) fired' gone by auto
  qed
qed

lemma getTransitionsFromTo_distinct: "idxOk its \<Longrightarrow> distinct (getTransitionsFromTo its a b)"
  using idxOk_distinct[of its] by (simp add: getTransitionsFromTo_def distinct_map_filter)

lemma chainSuccs_chainedFrom:
  assumes "idxOk its"
    and "chainSuccs env its initial succs k = (aborted, its1, k1)"
  shows "chainedFrom env initial its its1 \<and> k \<le> k1
         \<and> (aborted \<longrightarrow> (\<exists>p. k \<le> p \<and> p < k1 \<and> hard env p))
         \<and> (\<not> aborted \<longrightarrow>
               (\<forall>x \<in> set (rules its).
                  getLhsLoc (snd x) = initial \<and> set (getRhsLocs (snd x)) \<inter> set succs \<noteq> {}
                  \<longrightarrow> fst x \<notin> fst ` set (rules its1)))"
  using assms
proof (induction succs arbitrary: its k)
  case Nil
  then show ?case by (simp add: chainedFrom_refl)
next
  case (Cons succ rest)
  let ?firsts = "getTransitionsFromTo its initial succ"
  have df: "distinct ?firsts"
    using Cons.prems(1) by (rule getTransitionsFromTo_distinct)
  have fs: "\<forall>first \<in> set ?firsts. \<exists>r1. (first, r1) \<in> set (rules its) \<and> getLhsLoc r1 = initial
            \<and> succ \<in> set (getRhsLocs r1)"
    by (auto simp: getTransitionsFromTo_def)
  obtain ab itsA kA where cfs: "chainFirsts env its succ ?firsts k = (ab, itsA, kA)"
    by (cases "chainFirsts env its succ ?firsts k") auto
  from chainFirsts_chainedFrom[OF Cons.prems(1) df fs cfs] have
    cf: "chainedFrom env initial its itsA" and kk: "k \<le> kA"
    and fired: "ab \<longrightarrow> (\<exists>p. k \<le> p \<and> p < kA \<and> hard env p)"
    and gone: "\<not> ab \<longrightarrow> (\<forall>first \<in> set ?firsts. first \<notin> fst ` set (rules itsA))"
    by auto
  show ?case
  proof (cases ab)
    case True
    then have "(aborted, its1, k1) = (True, itsA, kA)"
      using Cons.prems(2) cfs by simp
    then show ?thesis using cf kk fired True by auto
  next
    case False
    have run: "chainSuccs env itsA initial rest kA = (aborted, its1, k1)"
      using Cons.prems(2) cfs False by simp
    have okA: "idxOk itsA" using cf by (rule chainedFromD(1))
    from Cons.IH[OF okA run] have
      ih: "chainedFrom env initial itsA its1" "kA \<le> k1"
        "aborted \<longrightarrow> (\<exists>p. kA \<le> p \<and> p < k1 \<and> hard env p)"
        "\<not> aborted \<longrightarrow>
               (\<forall>x \<in> set (rules itsA).
                  getLhsLoc (snd x) = initial \<and> set (getRhsLocs (snd x)) \<inter> set rest \<noteq> {}
                  \<longrightarrow> fst x \<notin> fst ` set (rules its1))"
      by auto
    have c1: "chainedFrom env initial its its1"
      using cf ih(1) by (rule chainedFrom_trans)
    have fired': "aborted \<longrightarrow> (\<exists>p. k \<le> p \<and> p < k1 \<and> hard env p)"
      using ih(3) kk by (meson le_trans)
    have del: "fst x \<notin> fst ` set (rules its1)"
      if na: "\<not> aborted" and x: "x \<in> set (rules its)" "getLhsLoc (snd x) = initial"
        "set (getRhsLocs (snd x)) \<inter> set (succ # rest) \<noteq> {}" for x
    proof -
      have xl: "fst x < nextTransIdx itsA"
        using idxOk_less[OF Cons.prems(1) x(1)] chainedFromD(2)[OF cf] by simp
      show ?thesis
      proof (cases "fst x \<in> fst ` set (rules itsA)")
        case False
        with ih(1) xl show ?thesis by (rule chainedFrom_deleted)
      next
        case True
        then obtain r' where r': "(fst x, r') \<in> set (rules itsA)" by force
        have "(fst x, snd x) \<in> set (rules its)" using x(1) by simp
        from chainedFrom_old[OF cf Cons.prems(1) this r'] r'
        have xa: "x \<in> set (rules itsA)" by simp
        have "succ \<notin> set (getRhsLocs (snd x))"
        proof
          assume "succ \<in> set (getRhsLocs (snd x))"
          with x(1,2) have "fst x \<in> set ?firsts"
            by (force simp: getTransitionsFromTo_def)
          with gone False True show False by blast
        qed
        with x(3) have "set (getRhsLocs (snd x)) \<inter> set rest \<noteq> {}" by auto
        with ih(4) na xa x(2) show ?thesis by blast
      qed
    qed
    show ?thesis
      using c1 kk ih(2) fired' del by auto
  qed
qed

subsection \<open>The store after a level of chaining\<close>


lemma rules_foldl_addRule:
  "fst ` set (rules its) \<subseteq> fst ` set (rules (foldl addRule its cs))"
proof (induction cs arbitrary: its)
  case Nil
  show ?case by simp
next
  case (Cons c cs)
  have "fst ` set (rules its) \<subseteq> fst ` set (rules (addRule its c))"
    by (auto simp: addRule_def)
  with Cons.IH[of "addRule its c"] show ?case by auto
qed

lemma rules_removeRule:
  "fst ` set (rules (removeRule its first)) = fst ` set (rules its) - {first}"
  by (force simp: removeRule_def)

lemma chainFirsts_rules:
  assumes "distinct firsts"
    and "set firsts \<subseteq> fst ` set (rules its)"
    and "chainFirsts env its succ firsts k = (False, its1, k1)"
  shows "its1 = foldl (chainFirstAsAmended env succ) its firsts"
  using assms
proof (induction firsts arbitrary: its k)
  case Nil
  then show ?case by simp
next
  case (Cons first rest)
  obtain ab itsA kA where cs:
    "chainSeconds env its first (getTransitionsFrom its succ) k = (ab, itsA, kA)"
    by (cases "chainSeconds env its first (getTransitionsFrom its succ) k") auto
  have nab: "\<not> ab"
    using Cons.prems(3) cs by (cases ab) auto
  have cs': "chainSeconds env its first (getTransitionsFrom its succ) k = (False, itsA, kA)"
    using cs nab by simp
  have 1: "first \<in> fst ` set (rules its)" using Cons.prems(2) by simp
  have 2: "set (getTransitionsFrom its succ) \<subseteq> fst ` set (rules its)"
    by (auto simp: getTransitionsFrom_def)
  have itsA: "itsA = foldl addRule its
           (List.map_filter (\<lambda>second. chainRules env (getRule its first) (getRule its second))
              (getTransitionsFrom its succ))"
    using 1 2 cs' by (rule chainSeconds_rules)
  have step: "removeRule itsA first = chainFirstAsAmended env succ its first"
    unfolding itsA chainFirstAsAmended_def ..
  have run: "chainFirsts env (removeRule itsA first) succ rest kA = (False, its1, k1)"
    using Cons.prems(3) cs' by simp
  have d: "distinct rest" and nin: "first \<notin> set rest"
    using Cons.prems(1) by simp_all
  have sub: "set rest \<subseteq> fst ` set (rules (removeRule itsA first))"
  proof -
    have "set rest \<subseteq> fst ` set (rules its) - {first}"
      using Cons.prems(2) nin by auto
    also have "\<dots> \<subseteq> fst ` set (rules itsA) - {first}"
      using rules_foldl_addRule[of its] unfolding itsA by blast
    finally show ?thesis
      unfolding rules_removeRule .
  qed
  from Cons.IH[OF d sub run] show ?case
    using step by simp
qed

lemma chainSuccs_rules:
  assumes "idxOk its"
    and "chainSuccs env its initial succs k = (False, its1, k1)"
  shows "its1 = foldl (chainSuccAsAmended env initial) its succs"
  using assms
proof (induction succs arbitrary: its k)
  case Nil
  then show ?case by simp
next
  case (Cons succ rest)
  obtain ab itsA kA where cf:
    "chainFirsts env its succ (getTransitionsFromTo its initial succ) k = (ab, itsA, kA)"
    by (cases "chainFirsts env its succ (getTransitionsFromTo its initial succ) k") auto
  have nab: "\<not> ab"
    using Cons.prems(2) cf by (cases ab) auto
  have cf': "chainFirsts env its succ (getTransitionsFromTo its initial succ) k = (False, itsA, kA)"
    using cf nab by simp
  have d: "distinct (getTransitionsFromTo its initial succ)"
    using Cons.prems(1) by (rule getTransitionsFromTo_distinct)
  have sub: "set (getTransitionsFromTo its initial succ) \<subseteq> fst ` set (rules its)"
    by (auto simp: getTransitionsFromTo_def)
  have itsA: "itsA = chainSuccAsAmended env initial its succ"
    unfolding chainSuccAsAmended_def using d sub cf' by (rule chainFirsts_rules)
  have fr: "\<forall>first \<in> set (getTransitionsFromTo its initial succ).
              \<exists>r1. (first, r1) \<in> set (rules its) \<and> getLhsLoc r1 = initial
                   \<and> succ \<in> set (getRhsLocs r1)"
    by (auto simp: getTransitionsFromTo_def)
  from chainFirsts_chainedFrom[OF Cons.prems(1) d fr cf']
  have "chainedFrom env initial its itsA" by blast
  then have ok: "idxOk itsA" by (rule chainedFromD(1))
  have run: "chainSuccs env itsA initial rest kA = (False, its1, k1)"
    using Cons.prems(2) cf' by simp
  from Cons.IH[OF ok run] show ?case
    using itsA by simp
qed

lemma chainSeconds_quiet:
  assumes "chainSeconds env its first seconds k = (False, its1, k1)"
  shows "k1 = k + length seconds \<and> (\<forall>p. k \<le> p \<and> p < k1 \<longrightarrow> \<not> hard env p)"
  using assms
proof (induction seconds arbitrary: its k)
  case Nil
  then show ?case by auto
next
  case (Cons second rest)
  let ?itsA = "case chainRules env (getRule its first) (getRule its second) of
                 Some c \<Rightarrow> addRule its c | None \<Rightarrow> its"
  have nh: "\<not> hard env k"
    using Cons.prems by (auto simp: Let_def split: if_splits)
  with Cons.prems have "chainSeconds env ?itsA first rest (Suc k) = (False, its1, k1)"
    by (simp add: Let_def)
  from Cons.IH[OF this] have k1: "k1 = Suc k + length rest"
    and q: "\<forall>p. Suc k \<le> p \<and> p < k1 \<longrightarrow> \<not> hard env p"
    by auto
  have "\<not> hard env p" if "k \<le> p \<and> p < k1" for p
  proof (cases "p = k")
    case True
    then show ?thesis using nh by simp
  next
    case False
    then show ?thesis using q that by simp
  qed
  then show ?case using k1 by simp
qed

lemma chainFirsts_quiet:
  assumes "chainFirsts env its succ firsts k = (False, its1, k1)"
  shows "k \<le> k1 \<and> (\<forall>p. k \<le> p \<and> p < k1 \<longrightarrow> \<not> hard env p)"
  using assms
proof (induction firsts arbitrary: its k)
  case Nil
  then show ?case by auto
next
  case (Cons first rest)
  obtain ab itsA kA where cs:
    "chainSeconds env its first (getTransitionsFrom its succ) k = (ab, itsA, kA)"
    by (cases "chainSeconds env its first (getTransitionsFrom its succ) k") auto
  have nab: "\<not> ab"
    using Cons.prems cs by (cases ab) auto
  have cs': "chainSeconds env its first (getTransitionsFrom its succ) k = (False, itsA, kA)"
    using cs nab by simp
  from chainSeconds_quiet[OF cs'] have a: "k \<le> kA" "\<forall>p. k \<le> p \<and> p < kA \<longrightarrow> \<not> hard env p"
    by auto
  have run: "chainFirsts env (removeRule itsA first) succ rest kA = (False, its1, k1)"
    using Cons.prems cs' by simp
  from Cons.IH[OF run] have b: "kA \<le> k1" "\<forall>p. kA \<le> p \<and> p < k1 \<longrightarrow> \<not> hard env p"
    by auto
  have "\<not> hard env p" if "k \<le> p \<and> p < k1" for p
  proof (cases "p < kA")
    case True
    then show ?thesis using a(2) that by simp
  next
    case False
    then show ?thesis using b(2) that by simp
  qed
  then show ?case using a(1) b(1) by simp
qed

lemma chainSuccs_quiet:
  assumes "chainSuccs env its initial succs k = (False, its1, k1)"
  shows "k \<le> k1 \<and> (\<forall>p. k \<le> p \<and> p < k1 \<longrightarrow> \<not> hard env p)"
  using assms
proof (induction succs arbitrary: its k)
  case Nil
  then show ?case by auto
next
  case (Cons succ rest)
  obtain ab itsA kA where cf:
    "chainFirsts env its succ (getTransitionsFromTo its initial succ) k = (ab, itsA, kA)"
    by (cases "chainFirsts env its succ (getTransitionsFromTo its initial succ) k") auto
  have nab: "\<not> ab"
    using Cons.prems cf by (cases ab) auto
  have cf': "chainFirsts env its succ (getTransitionsFromTo its initial succ) k = (False, itsA, kA)"
    using cf nab by simp
  from chainFirsts_quiet[OF cf'] have a: "k \<le> kA" "\<forall>p. k \<le> p \<and> p < kA \<longrightarrow> \<not> hard env p"
    by auto
  have run: "chainSuccs env itsA initial rest kA = (False, its1, k1)"
    using Cons.prems cf' by simp
  from Cons.IH[OF run] have b: "kA \<le> k1" "\<forall>p. kA \<le> p \<and> p < k1 \<longrightarrow> \<not> hard env p"
    by auto
  have "\<not> hard env p" if "k \<le> p \<and> p < k1" for p
  proof (cases "p < kA")
    case True
    then show ?thesis using a(2) that by simp
  next
    case False
    then show ?thesis using b(2) that by simp
  qed
  then show ?case using a(1) b(1) by simp
qed
lemma chainSeconds_polls:
  assumes "chainSeconds env its first seconds k = (aborted, its1, k1)"
  shows "k \<le> k1 \<and> (aborted \<longrightarrow> (\<exists>p. k \<le> p \<and> p < k1 \<and> hard env p))"
  using assms
proof (induction seconds arbitrary: its k)
  case Nil
  then show ?case by simp
next
  case (Cons second rest)
  let ?itsA = "case chainRules env (getRule its first) (getRule its second) of
                 Some c \<Rightarrow> addRule its c | None \<Rightarrow> its"
  show ?case
  proof (cases "hard env k")
    case True
    with Cons.prems have "aborted" "k1 = Suc k" by (simp_all add: Let_def)
    with True show ?thesis by auto
  next
    case False
    with Cons.prems have "chainSeconds env ?itsA first rest (Suc k) = (aborted, its1, k1)"
      by (simp add: Let_def)
    from Cons.IH[OF this] show ?thesis by (meson Suc_leD)
  qed
qed

lemma chainFirsts_polls:
  assumes "chainFirsts env its succ firsts k = (aborted, its1, k1)"
  shows "k \<le> k1 \<and> (aborted \<longrightarrow> (\<exists>p. k \<le> p \<and> p < k1 \<and> hard env p))"
  using assms
proof (induction firsts arbitrary: its k)
  case Nil
  then show ?case by simp
next
  case (Cons first rest)
  obtain ab itsA kA where cs:
    "chainSeconds env its first (getTransitionsFrom its succ) k = (ab, itsA, kA)"
    by (cases "chainSeconds env its first (getTransitionsFrom its succ) k") auto
  note p = chainSeconds_polls[OF cs]
  show ?case
  proof (cases ab)
    case True
    with Cons.prems cs have "aborted" "k1 = kA" by simp_all
    with p True show ?thesis by auto
  next
    case False
    with Cons.prems cs have "chainFirsts env (removeRule itsA first) succ rest kA = (aborted, its1, k1)"
      by simp
    from Cons.IH[OF this] p show ?thesis by (meson le_trans)
  qed
qed

lemma chainSuccs_polls:
  assumes "chainSuccs env its initial succs k = (aborted, its1, k1)"
  shows "k \<le> k1 \<and> (aborted \<longrightarrow> (\<exists>p. k \<le> p \<and> p < k1 \<and> hard env p))"
  using assms
proof (induction succs arbitrary: its k)
  case Nil
  then show ?case by simp
next
  case (Cons succ rest)
  obtain ab itsA kA where cs:
    "chainFirsts env its succ (getTransitionsFromTo its initial succ) k = (ab, itsA, kA)"
    by (cases "chainFirsts env its succ (getTransitionsFromTo its initial succ) k") auto
  note p = chainFirsts_polls[OF cs]
  show ?case
  proof (cases ab)
    case True
    with Cons.prems cs have "aborted" "k1 = kA" by simp_all
    with p True show ?thesis by auto
  next
    case False
    with Cons.prems cs have "chainSuccs env itsA initial rest kA = (aborted, its1, k1)"
      by simp
    from Cons.IH[OF this] p show ?thesis by (meson le_trans)
  qed
qed

lemma getMaxPartialResult_loop_exit:
  assumes "getMaxPartialResult_loop env initial its res k steps = Some y"
  shows "cpx res < Infty \<longrightarrow>
         k < fst (snd (snd y))
         \<and> ((\<exists>p. k \<le> p \<and> p < fst (snd (snd y)) \<and> hard env p)
            \<or> cpx (fst y) \<ge> Infty
            \<or> getSuccessorLocations (fst (snd y)) initial = [])"
  using assms
proof (induction rule: getMaxPartialResult_loop.raw_induct[rotated 1, consumes 1])
  case (1 loop env initial its res k steps y)
  show ?case
  proof
    assume lt: "cpx res < Infty"
    show "k < fst (snd (snd y))
         \<and> ((\<exists>p. k \<le> p \<and> p < fst (snd (snd y)) \<and> hard env p)
            \<or> cpx (fst y) \<ge> Infty
            \<or> getSuccessorLocations (fst (snd y)) initial = [])"
    proof (cases "hard env k")
      case True
      with 1(2) have "y = (res, its, Suc k, steps)" by simp
      with True show ?thesis by auto
    next
      case False
      obtain exit res1 k1 steps1 where
        sc: "getMaxPartialResult_scan env its (getTransitionsFrom its initial) res (Suc k) steps
               = (exit, res1, k1, steps1)"
        by (cases "getMaxPartialResult_scan env its (getTransitionsFrom its initial) res (Suc k) steps")
           auto
      from getMaxPartialResult_scan_spec[OF lt sc] have
        k1: "Suc k \<le> k1" and dn: "exit = GotoDone \<longleftrightarrow> cpx res1 \<ge> Infty"
        and ab: "exit = GotoAbort \<longrightarrow> (\<exists>p. Suc k \<le> p \<and> p < k1 \<and> hard env p)"
        by auto
      have ab': "exit = GotoAbort \<longrightarrow> (\<exists>p. k \<le> p \<and> p < k1 \<and> hard env p)"
        using ab by (meson Suc_leD)
      show ?thesis
      proof (cases "exit = ScanEnd")
        case ne: False
        with 1(2) False sc have "y = (res1, its, k1, steps1)" by simp
        moreover have "exit = GotoDone \<or> exit = GotoAbort"
          using ne by (cases exit) auto
        ultimately show ?thesis using k1 dn ab' by auto
      next
        case se: True
        then have lt1: "cpx res1 < Infty" using dn by (simp add: not_le[symmetric])
        show ?thesis
        proof (cases "getSuccessorLocations its initial = []")
          case True
          with 1(2) False sc se have "y = (res1, its, k1, steps1)" by simp
          with True k1 show ?thesis by auto
        next
          case ns: False
          obtain aborted its2 k2 where
            ch: "chainSuccs env its initial (getSuccessorLocations its initial) k1
                   = (aborted, its2, k2)"
            by (cases "chainSuccs env its initial (getSuccessorLocations its initial) k1") auto
          show ?thesis
          proof (cases aborted)
            case True
            with 1(2) False sc se ns ch have y: "y = (res1, its2, k2, steps1)" by simp
            from chainSuccs_polls[OF ch] True have
              "k1 \<le> k2" "\<exists>p. k1 \<le> p \<and> p < k2 \<and> hard env p"
              by auto
            with k1 y show ?thesis by (auto intro: le_trans Suc_leD)
          next
            case na: False
            with 1(2) False sc se ns ch have "loop env initial its2 res1 k2 steps1 = Some y"
              by simp
            from 1(1)[OF this] lt1 have
              ih: "k2 < fst (snd (snd y))"
                "(\<exists>p. k2 \<le> p \<and> p < fst (snd (snd y)) \<and> hard env p)
                  \<or> cpx (fst y) \<ge> Infty
                  \<or> getSuccessorLocations (fst (snd y)) initial = []"
              by auto
            from chainSuccs_polls[OF ch] have k12: "k1 \<le> k2" by simp
            have kk2: "k \<le> k2" using k1 k12 by simp
            have "(\<exists>p. k \<le> p \<and> p < fst (snd (snd y)) \<and> hard env p)
                  \<or> cpx (fst y) \<ge> Infty
                  \<or> getSuccessorLocations (fst (snd y)) initial = []"
              using ih(2) kk2 by (meson le_trans)
            moreover have "k < fst (snd (snd y))"
              using ih(1) kk2 by simp
            ultimately show ?thesis by simp
          qed
        qed
      qed
    qed
  qed
qed

subsection \<open>The loop of the partial result\<close>

lemma getSuccessorLocations_set:
  "set (getSuccessorLocations its loc)
     = {l. \<exists>x \<in> set (rules its). getLhsLoc (snd x) = loc \<and> l \<in> set (getRhsLocs (snd x))}"
  by (force simp: getSuccessorLocations_def)

lemma getMaxPartialResult_level:
  assumes "idxOk its"
    and "chainSuccs env its initial (getSuccessorLocations its initial) k = (False, its2, k2)"
  shows "(\<forall>x \<in> set (rules its).
            getLhsLoc (snd x) = initial \<and> getRhsLocs (snd x) \<noteq> []
            \<longrightarrow> fst x \<notin> fst ` set (rules its2))
       \<and> (\<forall>x \<in> set (rules its). getLhsLoc (snd x) \<noteq> initial \<longrightarrow> x \<in> set (rules its2))
       \<and> (\<forall>x \<in> set (rules its2). x \<in> set (rules its) \<or> isChain env initial (snd x))"
proof -
  from chainSuccs_chainedFrom[OF assms] have
    cf: "chainedFrom env initial its its2"
    and del: "\<forall>x \<in> set (rules its).
                  getLhsLoc (snd x) = initial
                  \<and> set (getRhsLocs (snd x)) \<inter> set (getSuccessorLocations its initial) \<noteq> {}
                  \<longrightarrow> fst x \<notin> fst ` set (rules its2)"
    by auto
  have a: "fst x \<notin> fst ` set (rules its2)"
    if x: "x \<in> set (rules its)" "getLhsLoc (snd x) = initial" "getRhsLocs (snd x) \<noteq> []" for x
  proof -
    from x(3) obtain l where l: "l \<in> set (getRhsLocs (snd x))"
      by (cases "getRhsLocs (snd x)") auto
    with x(1,2) have "l \<in> set (getSuccessorLocations its initial)"
      unfolding getSuccessorLocations_set by blast
    with l have "set (getRhsLocs (snd x)) \<inter> set (getSuccessorLocations its initial) \<noteq> {}"
      by blast
    with del x(1,2) show ?thesis by blast
  qed
  have b: "x \<in> set (rules its2)" if "x \<in> set (rules its)" "getLhsLoc (snd x) \<noteq> initial" for x
    using that by (rule chainedFromD(4)[OF cf])
  have c: "x \<in> set (rules its) \<or> isChain env initial (snd x)" if x: "x \<in> set (rules its2)" for x
  proof (cases "fst x < nextTransIdx its")
    case True
    with x have "x \<in> set (rules its)" by (rule chainedFromD(3)[OF cf])
    then show ?thesis by simp
  next
    case False
    then have "nextTransIdx its \<le> fst x" by simp
    with x have "isChain env initial (snd x)" by (rule chainedFromD(5)[OF cf])
    then show ?thesis by simp
  qed
  show ?thesis using a b c by blast
qed

lemma getMaxPartialResult_loop_returns:
  assumes "hard env p" and "k \<le> p" and "cpx res < Infty"
  shows "\<exists>y. getMaxPartialResult_loop env initial its res k steps = Some y"
  using assms(2,3)
proof (induction "p - k" arbitrary: its res k steps rule: less_induct)
  case less
  show ?case
  proof (cases "hard env k")
    case True
    then show ?thesis
      by (subst getMaxPartialResult_loop.simps) simp
  next
    case False
    obtain exit res1 k1 steps1 where
      sc: "getMaxPartialResult_scan env its (getTransitionsFrom its initial) res (Suc k) steps
             = (exit, res1, k1, steps1)"
      by (cases "getMaxPartialResult_scan env its (getTransitionsFrom its initial) res (Suc k) steps")
         auto
    show ?thesis
    proof (cases "exit = ScanEnd")
      case ne: False
      with False sc show ?thesis
        by (subst getMaxPartialResult_loop.simps) simp
    next
      case se: True
      from getMaxPartialResult_scan_spec[OF less.prems(2) sc] se have
        k1: "Suc k \<le> k1" and lt1: "\<not> cpx res1 \<ge> Infty"
        and q1: "\<forall>p. Suc k \<le> p \<and> p < k1 \<longrightarrow> \<not> hard env p"
        by auto
      have pk: "p \<noteq> k" using False assms(1) by auto
      have p1: "k1 \<le> p"
      proof (rule ccontr)
        assume "\<not> k1 \<le> p"
        then have "Suc k \<le> p \<and> p < k1" using pk less.prems(1) by simp
        with q1 assms(1) show False by blast
      qed
      show ?thesis
      proof (cases "getSuccessorLocations its initial = []")
        case True
        with False sc se show ?thesis
          by (subst getMaxPartialResult_loop.simps) simp
      next
        case ns: False
        obtain aborted its2 k2 where
          ch: "chainSuccs env its initial (getSuccessorLocations its initial) k1
                 = (aborted, its2, k2)"
          by (cases "chainSuccs env its initial (getSuccessorLocations its initial) k1") auto
        show ?thesis
        proof (cases aborted)
          case True
          with False sc se ns ch show ?thesis
            by (subst getMaxPartialResult_loop.simps) simp
        next
          case na: False
          then have ch': "chainSuccs env its initial (getSuccessorLocations its initial) k1
                 = (False, its2, k2)"
            using ch by simp
          from chainSuccs_quiet[OF ch'] have k12: "k1 \<le> k2"
            and q2: "\<forall>p. k1 \<le> p \<and> p < k2 \<longrightarrow> \<not> hard env p"
            by auto
          have p2: "k2 \<le> p"
          proof (rule ccontr)
            assume "\<not> k2 \<le> p"
            then have "k1 \<le> p \<and> p < k2" using p1 by simp
            with q2 assms(1) show False by blast
          qed
          have "p - k2 < p - k" using p2 k12 k1 by simp
          moreover have "cpx res1 < Infty" using lt1 by simp
          ultimately have "\<exists>y. getMaxPartialResult_loop env initial its2 res1 k2 steps1 = Some y"
            using p2 by (intro less.hyps)
          moreover have "getMaxPartialResult_loop env initial its res k steps
                  = getMaxPartialResult_loop env initial its2 res1 k2 steps1"
            using False sc se ns ch na
            by (subst getMaxPartialResult_loop.simps) simp
          ultimately show ?thesis by simp
        qed
      qed
    qed
  qed
qed

theorem getMaxPartialResult_counterexample:
  "\<not> isFullySimplified exampleTwoStep
   \<and> getTransitionsFrom exampleTwoStep (initialLocation exampleTwoStep) = [0]
   \<and> getComplexity exampleEnvChain (getCost (getRule exampleTwoStep 0)) = Const
   \<and> getVariables (getCost (getRule exampleTwoStep 0)) = []
   \<and> cpx (RuntimeResult_default (defaultBound exampleEnvChain)) = Unknown
   \<and> Unknown < Const
   \<and> getMaxRuntime exampleEnvChain exampleTwoStep 0 =
       (\<lparr>cpx = Const, bound = Numeric 1, reducedCpx = Const, guard = []\<rparr>, 1, [Checked 0])
   \<and> getMaxPartialResult_scan exampleEnvChain exampleTwoStep
         (getTransitionsFrom exampleTwoStep (initialLocation exampleTwoStep))
         (RuntimeResult_default (defaultBound exampleEnvChain)) 1 [] =
       (ScanEnd, RuntimeResult_default (defaultBound exampleEnvChain), 1, [Skipped 0])"
  by code_simp

text \<open>
  Claim C7, amended. Let \<open>its\<close> be the store at the head of an iteration of the loop of
  \<open>getMaxPartialResult\<close>, with its rule indices in order, and \<open>initial\<close> the initial
  location.
  \<^item> The steps, the result and the exit of the scan are those described by
    \<open>partialScanAsAmended\<close>: the prover is called for a rule if and only if the
    complexity of its cost exceeds both the class of the current best and \<open>Const\<close>, or
    the cost mentions a temporary variable (so a rule of constant cost without temporary
    variables is never checked, unlike in \<open>getMaxRuntime\<close>); the best is replaced, by
    the answer of the prover and the guard of the rule, only when the class of the answer
    is strictly greater; the scan leaves the loop by \<^verbatim>\<open>goto done\<close> when the best has
    reached \<open>Infty\<close>, by \<^verbatim>\<open>goto abort\<close> when the poll that follows a call of the prover
    fires, and otherwise looks at every rule.
  \<^item> After one level of chaining that no timeout has ended, the store is the one
    described by \<open>chainingFromStartAsAmended\<close>: for every successor \<open>s\<close> in turn, every
    rule \<open>first\<close> from the initial location to \<open>s\<close> has been chained with every rule
    leaving \<open>s\<close>, the chains that exist have been added, and \<open>first\<close> has been deleted.
    So every rule that led from the initial location to a successor has been deleted,
    the rules that do not leave the initial location are kept, every other rule of the
    store is a chain, and the indices of the new store are in order.
  \<^item> The iteration returns at once when the poll at its head fires, and after the scan
    when the scan has left the loop or the initial location has no successors;
    otherwise it chains one level, returns when a poll has ended the chaining, and
    repeats on the new store when none has.
  \<^item> When the loop returns, a poll of the hard timeout has fired, or the best has reached
    \<open>Infty\<close>, or the initial location has no successors; and the loop returns if a
    poll of the hard timeout that is still to come fires.
  \<^item> \<open>getMaxPartialResult\<close> is the loop started with the default result, on the
    initial location of the store.
\<close>

theorem getMaxPartialResult_spec:
  assumes "idxOk its"
  shows "(\<forall>res k steps exit res' k' steps'.
            cpx res < Infty \<longrightarrow>
            getMaxPartialResult_scan env its (getTransitionsFrom its initial)
              res k steps = (exit, res', k', steps') \<longrightarrow>
            (\<exists>tr. steps' = steps @ tr
               \<and> partialScanAsAmended
                    (\<lambda>i. getComplexity env (getCost (getRule its i)))
                    (\<lambda>i. \<exists>s \<in> set (getVariables (getCost (getRule its i))). isTempVar its s)
                    (\<lambda>i. determineComplexity env its (getGuard (getRule its i))
                            (getCost (getRule its i)) True)
                    (\<lambda>i. getGuard (getRule its i))
                    (hard env) res k (getTransitionsFrom its initial) tr res' exit))
     \<and> (\<forall>k its2 k2.
            chainSuccs env its initial (getSuccessorLocations its initial) k
              = (False, its2, k2) \<longrightarrow>
            its2 = chainingFromStartAsAmended env initial its
            \<and> (\<forall>x \<in> set (rules its).
                  getLhsLoc (snd x) = initial \<and> getRhsLocs (snd x) \<noteq> []
                  \<longrightarrow> fst x \<notin> fst ` set (rules its2))
            \<and> (\<forall>x \<in> set (rules its). getLhsLoc (snd x) \<noteq> initial \<longrightarrow> x \<in> set (rules its2))
            \<and> (\<forall>x \<in> set (rules its2). x \<in> set (rules its) \<or> isChain env initial (snd x))
            \<and> idxOk its2)
     \<and> (\<forall>res k steps.
            hard env k \<longrightarrow>
            getMaxPartialResult_loop env initial its res k steps = Some (res, its, Suc k, steps))
     \<and> (\<forall>res k steps exit res1 k1 steps1.
            \<not> hard env k \<longrightarrow>
            getMaxPartialResult_scan env its (getTransitionsFrom its initial) res (Suc k) steps
              = (exit, res1, k1, steps1) \<longrightarrow>
            exit \<noteq> ScanEnd \<or> getSuccessorLocations its initial = [] \<longrightarrow>
            getMaxPartialResult_loop env initial its res k steps = Some (res1, its, k1, steps1))
     \<and> (\<forall>res k steps res1 k1 steps1 aborted its2 k2.
            \<not> hard env k \<longrightarrow>
            getMaxPartialResult_scan env its (getTransitionsFrom its initial) res (Suc k) steps
              = (ScanEnd, res1, k1, steps1) \<longrightarrow>
            getSuccessorLocations its initial \<noteq> [] \<longrightarrow>
            chainSuccs env its initial (getSuccessorLocations its initial) k1
              = (aborted, its2, k2) \<longrightarrow>
            getMaxPartialResult_loop env initial its res k steps
              = (if aborted then Some (res1, its2, k2, steps1)
                 else getMaxPartialResult_loop env initial its2 res1 k2 steps1))
     \<and> (\<forall>res k steps res' its' k' steps'.
            cpx res < Infty \<longrightarrow>
            getMaxPartialResult_loop env initial its res k steps
              = Some (res', its', k', steps') \<longrightarrow>
            (\<exists>p. k \<le> p \<and> p < k' \<and> hard env p)
            \<or> cpx res' \<ge> Infty
            \<or> getSuccessorLocations its' initial = [])
     \<and> (\<forall>res k steps p.
            cpx res < Infty \<longrightarrow> k \<le> p \<longrightarrow> hard env p \<longrightarrow>
            (\<exists>y. getMaxPartialResult_loop env initial its res k steps = Some y))
     \<and> (\<forall>k. getMaxPartialResult env its k
              = getMaxPartialResult_loop env (initialLocation its) its
                  (RuntimeResult_default (defaultBound env)) k [])
     \<and> cpx (RuntimeResult_default (defaultBound env)) < Infty"
proof -
  have A: "\<exists>tr. steps' = steps @ tr
               \<and> partialScanAsAmended
                    (\<lambda>i. getComplexity env (getCost (getRule its i)))
                    (\<lambda>i. \<exists>s \<in> set (getVariables (getCost (getRule its i))). isTempVar its s)
                    (\<lambda>i. determineComplexity env its (getGuard (getRule its i))
                            (getCost (getRule its i)) True)
                    (\<lambda>i. getGuard (getRule its i))
                    (hard env) res k (getTransitionsFrom its initial) tr res' exit"
    if "cpx res < Infty"
      and "getMaxPartialResult_scan env its (getTransitionsFrom its initial) res k steps
             = (exit, res', k', steps')"
    for res k steps exit res' k' steps'
    using getMaxPartialResult_scan_spec[OF that] by blast
  have C: "(\<forall>x \<in> set (rules its).
                getLhsLoc (snd x) = initial \<and> getRhsLocs (snd x) \<noteq> []
                \<longrightarrow> fst x \<notin> fst ` set (rules its2))
            \<and> (\<forall>x \<in> set (rules its). getLhsLoc (snd x) \<noteq> initial \<longrightarrow> x \<in> set (rules its2))
            \<and> (\<forall>x \<in> set (rules its2). x \<in> set (rules its) \<or> isChain env initial (snd x))"
    and C': "idxOk its2"
    and C'': "its2 = chainingFromStartAsAmended env initial its"
    if c: "chainSuccs env its initial (getSuccessorLocations its initial) k = (False, its2, k2)"
    for k its2 k2
  proof -
    show "(\<forall>x \<in> set (rules its).
                getLhsLoc (snd x) = initial \<and> getRhsLocs (snd x) \<noteq> []
                \<longrightarrow> fst x \<notin> fst ` set (rules its2))
            \<and> (\<forall>x \<in> set (rules its). getLhsLoc (snd x) \<noteq> initial \<longrightarrow> x \<in> set (rules its2))
            \<and> (\<forall>x \<in> set (rules its2). x \<in> set (rules its) \<or> isChain env initial (snd x))"
      using assms c by (rule getMaxPartialResult_level)
    from chainSuccs_chainedFrom[OF assms c] have "chainedFrom env initial its its2" by blast
    then show "idxOk its2" by (rule chainedFromD(1))
    show "its2 = chainingFromStartAsAmended env initial its"
      unfolding chainingFromStartAsAmended_def using assms c by (rule chainSuccs_rules)
  qed
  have E: "getMaxPartialResult_loop env initial its res k steps = Some (res, its, Suc k, steps)"
    if "hard env k" for res k steps
    using that by (subst getMaxPartialResult_loop.simps) simp
  have F: "getMaxPartialResult_loop env initial its res k steps = Some (res1, its, k1, steps1)"
    if "\<not> hard env k"
      and "getMaxPartialResult_scan env its (getTransitionsFrom its initial) res (Suc k) steps
             = (exit, res1, k1, steps1)"
      and "exit \<noteq> ScanEnd \<or> getSuccessorLocations its initial = []"
    for res k steps exit res1 k1 steps1
    using that by (subst getMaxPartialResult_loop.simps) auto
  have G: "getMaxPartialResult_loop env initial its res k steps
              = (if aborted then Some (res1, its2, k2, steps1)
                 else getMaxPartialResult_loop env initial its2 res1 k2 steps1)"
    if "\<not> hard env k"
      and "getMaxPartialResult_scan env its (getTransitionsFrom its initial) res (Suc k) steps
              = (ScanEnd, res1, k1, steps1)"
      and "getSuccessorLocations its initial \<noteq> []"
      and "chainSuccs env its initial (getSuccessorLocations its initial) k1
              = (aborted, its2, k2)"
    for res k steps res1 k1 steps1 aborted its2 k2
    using that by (subst getMaxPartialResult_loop.simps) simp
  have D: "(\<exists>p. k \<le> p \<and> p < k' \<and> hard env p)
            \<or> cpx res' \<ge> Infty
            \<or> getSuccessorLocations its' initial = []"
    if lt: "cpx res < Infty"
      and r: "getMaxPartialResult_loop env initial its res k steps
                = Some (res', its', k', steps')"
    for res k steps res' its' k' steps'
    using getMaxPartialResult_loop_exit[OF r] lt by simp
  have T: "\<exists>y. getMaxPartialResult_loop env initial its res k steps = Some y"
    if "cpx res < Infty" "k \<le> p" "hard env p" for res k steps p
    using that(3,2,1) by (rule getMaxPartialResult_loop_returns)
  have H: "cpx (RuntimeResult_default (defaultBound env)) < Infty"
    by (simp add: RuntimeResult_default_def less_Complexity_def)
  show ?thesis
    apply (intro conjI allI impI)
    subgoal for res k steps exit res' k' steps' by (rule A)
    subgoal for k its2 k2 by (rule C'')
    subgoal for k its2 k2 using C[of k its2 k2] by blast
    subgoal for k its2 k2 using C[of k its2 k2] by blast
    subgoal for k its2 k2 using C[of k its2 k2] by blast
    subgoal for k its2 k2 by (rule C')
    subgoal for res k steps by (rule E)
    subgoal for res k steps exit res1 k1 steps1 by (rule F)
    subgoal for res k steps res1 k1 steps1 aborted its2 k2 by (rule G)
    subgoal for res k steps res' its' k' steps' by (rule D)
    subgoal for res k steps p by (rule T)
    subgoal for k by (simp add: getMaxPartialResult_def)
    subgoal by (rule H)
    done
qed

theorem getMaxPartialResult_spec_witness:
  "idxOk exampleFork
   \<and> getSuccessorLocations exampleFork (initialLocation exampleFork) = [1]
   \<and> chainSuccs exampleEnvChain exampleFork (initialLocation exampleFork) [1] 2 =
       (False,
        exampleFork\<lparr>rules := [(1, plainRule 1 2 (Symbol (Var 0))),
                               (2, plainRule 1 2 (Numeric 5)),
                               (3, plainRule 0 2 (Add (Numeric 1) (Symbol (Var 0)))),
                               (4, plainRule 0 2 (Add (Numeric 1) (Numeric 5)))],
                     nextTransIdx := 5\<rparr>, 4)
   \<and> chainingFromStartAsAmended exampleEnvChain (initialLocation exampleFork) exampleFork =
        exampleFork\<lparr>rules := [(1, plainRule 1 2 (Symbol (Var 0))),
                               (2, plainRule 1 2 (Numeric 5)),
                               (3, plainRule 0 2 (Add (Numeric 1) (Symbol (Var 0)))),
                               (4, plainRule 0 2 (Add (Numeric 1) (Numeric 5)))],
                     nextTransIdx := 5\<rparr>
   \<and> getMaxPartialResult exampleEnvChain exampleFork 0 =
       Some (\<lparr>cpx = Poly 1, bound = Add (Numeric 1) (Symbol (Var 0)), reducedCpx = Poly 1,
              guard = []\<rparr>,
             exampleFork\<lparr>rules := [(1, plainRule 1 2 (Symbol (Var 0))),
                                    (2, plainRule 1 2 (Numeric 5))],
                          nextTransIdx := 5\<rparr>,
             6, [Skipped 0, Checked 3, Skipped 4])
   \<and> getSuccessorLocations
       (exampleFork\<lparr>rules := [(1, plainRule 1 2 (Symbol (Var 0))),
                              (2, plainRule 1 2 (Numeric 5))],
                    nextTransIdx := 5\<rparr>)
       (initialLocation exampleFork) = []
   \<and> getMaxPartialResult exampleEnv exampleTies 0 =
       Some (\<lparr>cpx = Poly 1, bound = Symbol (Var 0), reducedCpx = Poly 1, guard = []\<rparr>,
             exampleTies\<lparr>rules := []\<rparr>, 4, [Checked 0, Checked 1])"
proof -
  let ?res = "\<lparr>cpx = Poly 1, bound = Add (Numeric 1) (Symbol (Var 0)), reducedCpx = Poly 1,
              guard = []\<rparr>"
  let ?its2 = "exampleFork\<lparr>rules := [(1, plainRule 1 2 (Symbol (Var 0))),
                               (2, plainRule 1 2 (Numeric 5)),
                               (3, plainRule 0 2 (Add (Numeric 1) (Symbol (Var 0)))),
                               (4, plainRule 0 2 (Add (Numeric 1) (Numeric 5)))],
                     nextTransIdx := 5\<rparr>"
  let ?its' = "exampleFork\<lparr>rules := [(1, plainRule 1 2 (Symbol (Var 0))),
                                    (2, plainRule 1 2 (Numeric 5))],
                          nextTransIdx := 5\<rparr>"
  have ok: "idxOk exampleFork" by code_simp
  have su: "getSuccessorLocations exampleFork (initialLocation exampleFork) = [1]"
    by code_simp
  have ch: "chainSuccs exampleEnvChain exampleFork (initialLocation exampleFork) [1] 2
              = (False, ?its2, 4)"
    by code_simp
  have ev: "getMaxPartialResult exampleEnvChain exampleFork 0
              = Some (?res, ?its', 6, [Skipped 0, Checked 3, Skipped 4])"
    by code_simp
  have ties: "getMaxPartialResult exampleEnv exampleTies 0 =
       Some (\<lparr>cpx = Poly 1, bound = Symbol (Var 0), reducedCpx = Poly 1, guard = []\<rparr>,
             exampleTies\<lparr>rules := []\<rparr>, 4, [Checked 0, Checked 1])"
    by code_simp
  have nohard: "\<not> hard exampleEnvChain p" for p
    by (simp add: exampleEnvChain_def exampleEnv_def)
  have noinf: "\<not> cpx ?res \<ge> Infty"
    by (simp add: less_eq_Complexity_def)
  have ch': "chainSuccs exampleEnvChain exampleFork (initialLocation exampleFork)
              (getSuccessorLocations exampleFork (initialLocation exampleFork)) 2
              = (False, ?its2, 4)"
    unfolding su by (rule ch)
  note spec = getMaxPartialResult_spec[OF ok, of exampleEnvChain "initialLocation exampleFork"]
  note level = spec[THEN conjunct2, THEN conjunct1, rule_format, OF ch', THEN conjunct1]
  note exits = spec[THEN conjunct2, THEN conjunct2, THEN conjunct2, THEN conjunct2,
                    THEN conjunct2, THEN conjunct1, rule_format]
  note eq = spec[THEN conjunct2, THEN conjunct2, THEN conjunct2, THEN conjunct2,
                 THEN conjunct2, THEN conjunct2, THEN conjunct2, THEN conjunct1, rule_format]
  note lt = spec[THEN conjunct2, THEN conjunct2, THEN conjunct2, THEN conjunct2,
                 THEN conjunct2, THEN conjunct2, THEN conjunct2, THEN conjunct2]
  have lev: "chainingFromStartAsAmended exampleEnvChain (initialLocation exampleFork) exampleFork
               = ?its2"
    using level by simp
  have "(\<exists>p. 0 \<le> p \<and> p < 6 \<and> hard exampleEnvChain p)
            \<or> cpx ?res \<ge> Infty
            \<or> getSuccessorLocations ?its' (initialLocation exampleFork) = []"
    by (rule exits[OF lt ev[unfolded eq]])
  with nohard noinf
  have "getSuccessorLocations ?its' (initialLocation exampleFork) = []" by blast
  with ok su ch lev ev ties show ?thesis by (intro conjI)
qed
section \<open>Removing constant paths after a timeout\<close>


lemma onlyConstantRemoved_refl: "onlyConstantRemoved env its its"
  unfolding onlyConstantRemoved_def
  by (auto intro: exI[of _ "\<lambda>x. True"])

lemma onlyConstantRemoved_trans:
  assumes "onlyConstantRemoved env its its1" and "onlyConstantRemoved env its1 its2"
  shows "onlyConstantRemoved env its its2"
proof -
  from assms(1) obtain P where P: "its1 = its\<lparr>rules := filter P (rules its)\<rparr>"
    by (auto simp: onlyConstantRemoved_def)
  from assms(2) obtain Q where Q: "its2 = its1\<lparr>rules := filter Q (rules its1)\<rparr>"
    by (auto simp: onlyConstantRemoved_def)
  have "its2 = its\<lparr>rules := filter (\<lambda>x. P x \<and> Q x) (rules its)\<rparr>"
    by (simp add: P Q conj_commute)
  moreover have "getComplexity env (getCost r) \<le> Const"
    if "(idx, r) \<in> set (rules its)" "(idx, r) \<notin> set (rules its2)" for idx r
  proof (cases "(idx, r) \<in> set (rules its1)")
    case True
    with assms(2) that(2) show ?thesis by (auto simp: onlyConstantRemoved_def)
  next
    case False
    with assms(1) that(1) show ?thesis by (auto simp: onlyConstantRemoved_def)
  qed
  ultimately show ?thesis
    unfolding onlyConstantRemoved_def by blast
qed

lemma onlyConstantRemoved_distinct:
  "onlyConstantRemoved env its its' \<Longrightarrow> distinct (map fst (rules its))
     \<Longrightarrow> distinct (map fst (rules its'))"
  by (auto simp: onlyConstantRemoved_def distinct_map_filter)

lemma getRule_distinct:
  "distinct (map fst (rules its)) \<Longrightarrow> (idx, r) \<in> set (rules its) \<Longrightarrow> getRule its idx = r"
  by (simp add: getRule_def)

lemma removeRule_onlyConstantRemoved:
  assumes "distinct (map fst (rules its))"
    and "getComplexity env (getCost (getRule its idx)) \<le> Const"
  shows "onlyConstantRemoved env its (removeRule its idx)"
proof -
  have "getComplexity env (getCost r) \<le> Const"
    if "(i, r) \<in> set (rules its)" "(i, r) \<notin> set (rules (removeRule its idx))" for i r
  proof -
    from that have "i = idx" by (auto simp: removeRule_def)
    with that(1) assms show ?thesis by (simp add: getRule_distinct)
  qed
  then show ?thesis
    unfolding onlyConstantRemoved_def removeRule_def by auto
qed

lemma removeConstantRules_onlyConstantRemoved:
  "distinct (map fst (rules its)) \<Longrightarrow> onlyConstantRemoved env its (removeConstantRules env its idxs)"
proof (induction idxs arbitrary: its)
  case Nil
  then show ?case by (simp add: onlyConstantRemoved_refl)
next
  case (Cons idx idxs)
  show ?case
  proof (cases "getComplexity env (getCost (getRule its idx)) \<le> Const")
    case True
    have 1: "onlyConstantRemoved env its (removeRule its idx)"
      using Cons.prems True by (rule removeRule_onlyConstantRemoved)
    have "distinct (map fst (rules (removeRule its idx)))"
      using 1 Cons.prems by (rule onlyConstantRemoved_distinct)
    then have "onlyConstantRemoved env (removeRule its idx)
                 (removeConstantRules env (removeRule its idx) idxs)"
      by (rule Cons.IH)
    with 1 show ?thesis
      using True by (auto intro: onlyConstantRemoved_trans)
  next
    case False
    then show ?thesis using Cons by simp
  qed
qed

lemma removeConstantPathsSuccs_good:
  assumes IH: "\<And>its cur vis k b its' vis' k'.
      distinct (map fst (rules its)) \<Longrightarrow>
      removeConstantPathsImpl d env its cur vis k = Some (b, its', vis', k') \<Longrightarrow>
      onlyConstantRemoved env its its' \<and> vis \<subseteq> vis' \<and> k \<le> k'
        \<and> (b \<longrightarrow> cur \<in> vis \<or> getTransitionsFrom its' cur = [])"
    and "distinct (map fst (rules its))"
    and "removeConstantPathsSuccs d env its cur ns vis k = Some (b, its', vis', k')"
  shows "onlyConstantRemoved env its its' \<and> vis \<subseteq> vis' \<and> k \<le> k'
        \<and> (b \<longrightarrow> getTransitionsFrom its' cur = [])"
  using assms(2,3)
proof (induction ns arbitrary: its vis k)
  case Nil
  then show ?case by (auto simp: onlyConstantRemoved_refl)
next
  case (Cons n ns)
  show ?case
  proof (cases "hard env k")
    case True
    with Cons.prems show ?thesis by (auto simp: onlyConstantRemoved_refl)
  next
    case False
    with Cons.prems(2) obtain b1 its1 vis1 k1 where
      call: "removeConstantPathsImpl d env its n vis (Suc k) = Some (b1, its1, vis1, k1)"
      and rest: "removeConstantPathsSuccs d env
                   (if b1 then removeConstantRules env its1 (getTransitionsFromTo its1 cur n)
                    else its1) cur ns vis1 k1 = Some (b, its', vis', k')"
      by (auto split: option.splits)
    let ?its2 = "if b1 then removeConstantRules env its1 (getTransitionsFromTo its1 cur n) else its1"
    from IH[OF Cons.prems(1) call] have
      1: "onlyConstantRemoved env its its1" "vis \<subseteq> vis1" "Suc k \<le> k1"
      by auto
    have d1: "distinct (map fst (rules its1))"
      using 1(1) Cons.prems(1) by (rule onlyConstantRemoved_distinct)
    have 2: "onlyConstantRemoved env its1 ?its2"
      using d1 by (simp add: removeConstantRules_onlyConstantRemoved onlyConstantRemoved_refl)
    have d2: "distinct (map fst (rules ?its2))"
      using 2 d1 by (rule onlyConstantRemoved_distinct)
    from Cons.IH[OF d2 rest] have
      3: "onlyConstantRemoved env ?its2 its'" "vis1 \<subseteq> vis'" "k1 \<le> k'"
         "b \<longrightarrow> getTransitionsFrom its' cur = []"
      by auto
    have "onlyConstantRemoved env its its'"
      using 1(1) 2 3(1) by (blast intro: onlyConstantRemoved_trans)
    then show ?thesis
      using 1 3 by auto
  qed
qed

lemma removeConstantPathsImpl_good:
  assumes "distinct (map fst (rules its))"
    and "removeConstantPathsImpl d env its cur vis k = Some (b, its', vis', k')"
  shows "onlyConstantRemoved env its its' \<and> vis \<subseteq> vis' \<and> k \<le> k'
        \<and> (b \<longrightarrow> cur \<in> vis \<or> getTransitionsFrom its' cur = [])"
  using assms
proof (induction d arbitrary: its cur vis k b its' vis' k')
  case 0
  then show ?case by simp
next
  case (Suc d)
  show ?case
  proof (cases "cur \<in> vis")
    case True
    with Suc.prems show ?thesis by (auto simp: onlyConstantRemoved_refl)
  next
    case False
    with Suc.prems(2) have
      "removeConstantPathsSuccs d env its cur (getSuccessorLocations its cur) (insert cur vis) k
         = Some (b, its', vis', k')"
      by simp
    from removeConstantPathsSuccs_good[OF Suc.IH Suc.prems(1) this]
    show ?thesis by auto
  qed
qed

lemma targetLocations_onlyConstantRemoved:
  "onlyConstantRemoved env its its' \<Longrightarrow> set (targetLocations its') \<subseteq> set (targetLocations its)"
  by (auto simp: onlyConstantRemoved_def targetLocations_def)

lemma getSuccessorLocations_targets:
  "set (getSuccessorLocations its cur) \<subseteq> set (targetLocations its)"
  by (auto simp: getSuccessorLocations_def targetLocations_def)

lemma removeConstantPathsSuccs_total:
  assumes IH: "\<And>its cur vis k.
      distinct (map fst (rules its)) \<Longrightarrow> set (targetLocations its) \<subseteq> U \<Longrightarrow> cur \<in> U \<Longrightarrow>
      card (U - vis) < d \<Longrightarrow> removeConstantPathsImpl d env its cur vis k \<noteq> None"
    and "finite U"
    and "distinct (map fst (rules its))"
    and "set (targetLocations its) \<subseteq> U"
    and "set ns \<subseteq> U"
    and "card (U - vis) < d"
  shows "removeConstantPathsSuccs d env its cur ns vis k \<noteq> None"
  using assms(3-)
proof (induction ns arbitrary: its vis k)
  case Nil
  then show ?case by simp
next
  case (Cons n ns)
  show ?case
  proof (cases "hard env k")
    case True
    then show ?thesis by simp
  next
    case False
    have "n \<in> U" using Cons.prems(3) by simp
    from IH[OF Cons.prems(1,2) this Cons.prems(4)]
    obtain b1 its1 vis1 k1 where
      call: "removeConstantPathsImpl d env its n vis (Suc k) = Some (b1, its1, vis1, k1)"
      by (metis not_None_eq prod_cases4)
    let ?its2 = "if b1 then removeConstantRules env its1 (getTransitionsFromTo its1 cur n) else its1"
    from removeConstantPathsImpl_good[OF Cons.prems(1) call] have
      1: "onlyConstantRemoved env its its1" "vis \<subseteq> vis1"
      by auto
    have d1: "distinct (map fst (rules its1))"
      using 1(1) Cons.prems(1) by (rule onlyConstantRemoved_distinct)
    have 2: "onlyConstantRemoved env its1 ?its2"
      using d1 by (simp add: removeConstantRules_onlyConstantRemoved onlyConstantRemoved_refl)
    have d2: "distinct (map fst (rules ?its2))"
      using 2 d1 by (rule onlyConstantRemoved_distinct)
    have t2: "set (targetLocations ?its2) \<subseteq> U"
      using targetLocations_onlyConstantRemoved[OF 1(1)] targetLocations_onlyConstantRemoved[OF 2]
        Cons.prems(2) by blast
    have "card (U - vis1) \<le> card (U - vis)"
      using 1(2) \<open>finite U\<close> by (intro card_mono) auto
    then have c2: "card (U - vis1) < d"
      using Cons.prems(4) by simp
    have "removeConstantPathsSuccs d env ?its2 cur ns vis1 k1 \<noteq> None"
      using Cons.IH[OF d2 t2 _ c2] Cons.prems(3) by simp
    then show ?thesis
      using False call by simp
  qed
qed

lemma removeConstantPathsImpl_total:
  assumes "finite U"
    and "distinct (map fst (rules its))"
    and "set (targetLocations its) \<subseteq> U"
    and "cur \<in> U"
    and "card (U - vis) < d"
  shows "removeConstantPathsImpl d env its cur vis k \<noteq> None"
  using assms(2-)
proof (induction d arbitrary: its cur vis k)
  case 0
  then show ?case by simp
next
  case (Suc d)
  show ?case
  proof (cases "cur \<in> vis")
    case True
    then show ?thesis by simp
  next
    case False
    have "card (U - insert cur vis) < card (U - vis)"
      using False Suc.prems(3) \<open>finite U\<close>
      by (intro psubset_card_mono) auto
    then have c: "card (U - insert cur vis) < d"
      using Suc.prems(4) by simp
    have ns: "set (getSuccessorLocations its cur) \<subseteq> U"
      using getSuccessorLocations_targets Suc.prems(2) by blast
    have "removeConstantPathsSuccs d env its cur (getSuccessorLocations its cur)
            (insert cur vis) k \<noteq> None"
      using removeConstantPathsSuccs_total[OF Suc.IH \<open>finite U\<close> Suc.prems(1,2) ns c] by simp
    then show ?thesis
      using False by simp
  qed
qed

lemma removeConstantPathsAfterTimeout_total:
  assumes "distinct (map fst (rules its))"
  shows "removeConstantPathsAfterTimeout env its k \<noteq> None"
proof -
  let ?U = "set (initialLocation its # targetLocations its)"
  have "card (?U - {}) \<le> length (initialLocation its # targetLocations its)"
    by (simp only: Diff_empty card_length)
  then have "card (?U - {}) < Suc (Suc (length (targetLocations its)))"
    by simp
  then show ?thesis
    unfolding removeConstantPathsAfterTimeout_def
    by (intro removeConstantPathsImpl_total[where U = ?U] assms) auto
qed









section \<open>Escaping of variable names: the result\<close>

lemma isalnum_Q: "isalnum (CHR ''Q'')"
  by (simp add: isalnum_def isalpha_def isdigit_def)

lemma escapeLoop_step:
  "i < length name \<Longrightarrow> escapeLoop i name = escapeLoop (i + 1) (name[i := esc (name ! i)])"
  by (subst escapeLoop.simps) (simp add: Let_def esc_def isalnum_Q)

lemma escapeLoop_map:
  "i \<le> length name \<Longrightarrow> escapeLoop i name = take i name @ map esc (drop i name)"
proof (induction "length name - i" arbitrary: i name)
  case 0
  then show ?case by (subst escapeLoop.simps) simp
next
  case (Suc k)
  then have lt: "i < length name" by simp
  let ?name2 = "name[i := esc (name ! i)]"
  have "escapeLoop (i + 1) ?name2 = take (i + 1) ?name2 @ map esc (drop (i + 1) ?name2)"
    using Suc.hyps(1)[of ?name2 "i + 1"] Suc.hyps(2) lt by simp
  also have "\<dots> = take i name @ map esc (drop i name)"
    using lt by (simp add: take_Suc_conv_app_nth Cons_nth_drop_Suc[symmetric])
  finally show ?case using escapeLoop_step[OF lt] by simp
qed

lemma esc_not_I: "esc c \<noteq> CHR ''I''"
  by (simp add: esc_def)

lemma esc_alnum: "isalnum (esc c) \<or> esc c = CHR ''_''"
  by (simp add: esc_def isalnum_Q)

lemma escapeVarname_map:
  assumes "name \<noteq> []"
  shows "escapeVarname name =
           Inr (if isalpha (hd (map esc name)) then map esc name else CHR ''q'' # map esc name)"
proof -
  have loop: "escapeLoop 0 name = map esc name"
    by (simp add: escapeLoop_map)
  have "map esc name ! 0 = hd (map esc name)"
    using assms by (cases name) simp_all
  then show ?thesis
    using assms by (simp add: escapeVarname_def loop Let_def)
qed

text \<open>
  Claim C9. For a non-empty name, \<open>escapeVarname\<close> returns a string \<open>r\<close> built from a
  string \<open>s\<close> of the length of the name in which every \<^verbatim>\<open>I\<close> of the name is a
  \<^verbatim>\<open>Q\<close>, every other character that is not alphanumeric is a \<^verbatim>\<open>_\<close> and
  every other character is kept; \<open>r\<close> is \<open>s\<close>, with a \<^verbatim>\<open>q\<close> in front when \<open>s\<close>
  does not start with a letter. Hence \<open>r\<close> starts with a letter, consists of
  alphanumeric characters and \<^verbatim>\<open>_\<close> only, and contains no \<^verbatim>\<open>I\<close>.
\<close>

theorem escapeVarname_spec:
  assumes "name \<noteq> []"
  shows "\<exists>s r. escapeVarname name = Inr r
      \<and> length s = length name
      \<and> (\<forall>i < length name. s ! i =
            (if name ! i = CHR ''I'' then CHR ''Q''
             else if isalnum (name ! i) then name ! i else CHR ''_''))
      \<and> r = (if isalpha (hd s) then s else CHR ''q'' # s)
      \<and> isalpha (hd r) \<and> (\<forall>c \<in> set r. isalnum c \<or> c = CHR ''_'') \<and> CHR ''I'' \<notin> set r"
proof -
  let ?s = "map esc name"
  let ?r = "if isalpha (hd ?s) then ?s else CHR ''q'' # ?s"
  have q: "isalpha (CHR ''q'')" "isalnum (CHR ''q'')"
    by (simp_all add: isalnum_def isalpha_def)
  have s_ok: "\<forall>c \<in> set ?s. (isalnum c \<or> c = CHR ''_'') \<and> c \<noteq> CHR ''I''"
    using esc_not_I esc_alnum by auto
  have r1: "isalpha (hd ?r)"
    using q by simp
  have r2: "\<forall>c \<in> set ?r. isalnum c \<or> c = CHR ''_''"
    using s_ok q by (cases "isalpha (hd ?s)") simp_all
  have r3: "CHR ''I'' \<notin> set ?r"
    using s_ok by (cases "isalpha (hd ?s)") auto
  have pos: "\<forall>i < length name. ?s ! i =
            (if name ! i = CHR ''I'' then CHR ''Q''
             else if isalnum (name ! i) then name ! i else CHR ''_'')"
    by (simp add: esc_def)
  show ?thesis
    using escapeVarname_map [OF assms] r1 r2 r3 pos
    by (intro exI[of _ ?s] exI[of _ ?r]) simp
qed

theorem escapeVarname_spec_witness:
  "''1I-x'' \<noteq> [] \<and> (\<exists>s. escapeVarname ''1I-x'' = Inr ''q1Q_x'' \<and> ''q1Q_x'' = CHR ''q'' # s
     \<and> length s = length ''1I-x'')"
proof -
  have h: "''1I-x'' \<noteq> []" by simp
  have ev: "escapeVarname ''1I-x'' = Inr ''q1Q_x''"
    by (simp add: escapeVarname_def escapeLoop.simps isalnum_def isalpha_def isdigit_def)
  from escapeVarname_spec [OF h] obtain s r where
    "escapeVarname ''1I-x'' = Inr r" and "length s = length ''1I-x''"
    and "r = (if isalpha (hd s) then s else CHR ''q'' # s)"
    by blast
  with ev have "\<exists>s. ''q1Q_x'' = CHR ''q'' # s \<and> length s = length ''1I-x''"
    by (auto split: if_splits)
  with h ev show ?thesis by blast
qed

section \<open>Normalising an inequality\<close>

lemma isInequality_cases:
  "isInequality rel \<longleftrightarrow>
     (\<exists>op l r. rel = Relational op l r \<and> op \<noteq> relation_equal \<and> op \<noteq> relation_not_equal)"
  by (cases rel) (auto simp: isInequality_def isEquality_def isRelation_def)

lemma transformInequalityGreater_Relational:
  "op \<noteq> relation_equal \<Longrightarrow> op \<noteq> relation_not_equal \<Longrightarrow>
   transformInequalityGreater (Relational op l r) =
     Inr (case op of
            relation_less \<Rightarrow> Relational relation_greater r l
          | relation_less_or_equal \<Rightarrow> Relational relation_greater (Add r (Numeric 1)) l
          | relation_greater_or_equal \<Rightarrow> Relational relation_greater (Add l (Numeric 1)) r
          | _ \<Rightarrow> Relational relation_greater l r)"
  by (cases op) (simp_all add: transformInequalityGreater_def isInequality_cases)

text \<open>
  Claim C10. For every inequality \<open>rel\<close> (a relation with \<open><\<close>, \<open><=\<close>, \<open>>\<close> or
  \<open>>=\<close>), \<open>normalizeInequality\<close> returns a relation \<open>e > 0\<close>, which
  \<open>isNormalizedInequality\<close> accepts, and which holds under exactly the integer valuations
  under which \<open>rel\<close> holds.
\<close>

theorem normalizeInequality_spec:
  assumes "isInequality rel"
  shows "\<exists>e. normalizeInequality rel = Inr (Relational relation_greater e (Numeric 0))
           \<and> isNormalizedInequality (Relational relation_greater e (Numeric 0))
           \<and> (\<forall>\<sigma> X. holds \<sigma> X (Relational relation_greater e (Numeric 0)) = holds \<sigma> X rel)"
proof -
  from assms obtain op l r where rel: "rel = Relational op l r"
    and op: "op \<noteq> relation_equal" "op \<noteq> relation_not_equal"
    by (auto simp: isInequality_cases)
  have norm: "isNormalizedInequality (Relational relation_greater e (Numeric 0))" for e
    by (simp add: isNormalizedInequality_def isInequality_cases is_zero_def)
  show ?thesis
    using op unfolding rel
    by (cases op)
       (auto simp: normalizeInequality_def transformInequalityGreater_Relational
          isInequality_cases norm minus_def)
qed

theorem normalizeInequality_spec_witness:
  "isInequality (Relational relation_greater_or_equal (Symbol (Var 0)) (Numeric 3))
   \<and> normalizeInequality (Relational relation_greater_or_equal (Symbol (Var 0)) (Numeric 3))
       = Inr (Relational relation_greater
               (minus (Add (Symbol (Var 0)) (Numeric 1)) (Numeric 3)) (Numeric 0))"
proof -
  have h: "isInequality (Relational relation_greater_or_equal (Symbol (Var 0)) (Numeric 3))"
    by (simp add: isInequality_def isEquality_def isRelation_def)
  from normalizeInequality_spec [OF h] obtain e where
    "normalizeInequality (Relational relation_greater_or_equal (Symbol (Var 0)) (Numeric 3))
       = Inr (Relational relation_greater e (Numeric 0))"
    by blast
  moreover have "normalizeInequality (Relational relation_greater_or_equal (Symbol (Var 0)) (Numeric 3))
       = Inr (Relational relation_greater
               (minus (Add (Symbol (Var 0)) (Numeric 1)) (Numeric 3)) (Numeric 0))"
    by (simp add: normalizeInequality_def transformInequalityGreater_def isInequality_def
          isEquality_def isRelation_def isNormalizedInequality_def is_zero_def)
  ultimately show ?thesis using h by simp
qed

section \<open>The result of the analysis\<close>

lemma coerced_not_Unknown:
  "cpx (if cpx r = Unknown then r\<lparr>cpx := Const, bound := Numeric 1, guard := []\<rparr> else r) \<noteq> Unknown"
  by simp

theorem run_empty_counterexample:
  "isEmpty (removeUnsatInitialRules exampleEnv (snd (ensureProperInitialLocation exampleEmpty)))
   \<and> run exampleEnv exampleEmpty 0 =
       Some \<lparr>cpx = Unknown, bound = Numeric 0, reducedCpx = Unknown, guard = []\<rparr>"
  by (simp add: run_def exampleEnv_def exampleEmpty_def ensureProperInitialLocation_def
        hasTransitionsTo_def isEmpty_def getTransitionsFrom_def RuntimeResult_default_def)

lemma computeComplexity_returns:
  assumes "distinct (map fst (rules its))"
    and "isFullySimplified its \<or> (\<forall>k. \<exists>p\<ge>k. hard env p)"
  shows "\<exists>r. computeComplexity env its k = Some r"
proof (cases "isFullySimplified its")
  case True
  then show ?thesis by (simp add: computeComplexity_def)
next
  case False
  with assms(2) have t: "\<forall>k. \<exists>p\<ge>k. hard env p" by simp
  obtain b its1 visited k1 where
    rc: "removeConstantPathsAfterTimeout env its k = Some (b, its1, visited, k1)"
    using removeConstantPathsAfterTimeout_total[OF assms(1), of env k]
    by (metis not_None_eq prod_cases4)
  from t obtain p where p: "k1 \<le> p" "hard env p" by blast
  have lt: "cpx (RuntimeResult_default (defaultBound env)) < Infty"
    by (simp add: RuntimeResult_default_def less_Complexity_def)
  from getMaxPartialResult_loop_returns[OF p(2,1) lt]
  obtain y where "getMaxPartialResult env its1 k1 = Some y"
    unfolding getMaxPartialResult_def by blast
  with False rc show ?thesis
    by (simp add: computeComplexity_def)
qed

text \<open>
  Claim C1, amended. Let \<open>its2\<close> be the problem after the fresh initial location and the
  removal of unsatisfiable initial rules.
  \<^item> If \<open>its2\<close> is empty, \<open>run\<close> returns the default result, of complexity \<open>Unknown\<close>.
  \<^item> If \<open>its2\<close> is not empty, \<open>run\<close> returns a result as soon as the simplification
    returns, with a store whose rule indices are unique, that is fully simplified or
    analysed under a hard timeout that fires again and again.
  \<^item> Whenever \<open>run\<close> returns for a problem with \<open>its2\<close> not empty, the simplification
    and the computation of the complexity have returned, the class of the result is not
    \<open>Unknown\<close>, and if the computation of the complexity has found the class \<open>Unknown\<close>,
    the result has the class \<open>Const\<close>, the bound 1 and an empty guard.
\<close>

theorem run_result:
  assumes "its2 = removeUnsatInitialRules env (snd (ensureProperInitialLocation its0))"
  shows "(isEmpty its2 \<longrightarrow>
            run env its0 k0 = Some (RuntimeResult_default (defaultBound env))
            \<and> cpx (RuntimeResult_default (defaultBound env)) = Unknown)
     \<and> (\<forall>its3 k1.
            \<not> isEmpty its2 \<longrightarrow>
            simplify env its2 k0 = Some (its3, k1) \<longrightarrow>
            distinct (map fst (rules its3)) \<longrightarrow>
            isFullySimplified its3 \<or> (\<forall>k. \<exists>p\<ge>k. hard env p) \<longrightarrow>
            (\<exists>r. run env its0 k0 = Some r))
     \<and> (\<forall>r. \<not> isEmpty its2 \<longrightarrow>
            run env its0 k0 = Some r \<longrightarrow>
            cpx r \<noteq> Unknown
            \<and> (\<exists>its3 k1 runtime1.
                  simplify env its2 k0 = Some (its3, k1)
                  \<and> computeComplexity env its3 k1 = Some runtime1
                  \<and> (if cpx runtime1 = Unknown
                      then r = runtime1\<lparr>cpx := Const, bound := Numeric 1, guard := []\<rparr>
                      else r = runtime1)))"
proof -
  have E: "run env its0 k0 = Some (RuntimeResult_default (defaultBound env))
            \<and> cpx (RuntimeResult_default (defaultBound env)) = Unknown"
    if "isEmpty its2"
    using that assms by (simp add: run_def Let_def RuntimeResult_default_def)
  have T: "\<exists>r. run env its0 k0 = Some r"
    if ne: "\<not> isEmpty its2"
      and s: "simplify env its2 k0 = Some (its3, k1)"
      and d: "distinct (map fst (rules its3))"
      and t: "isFullySimplified its3 \<or> (\<forall>k. \<exists>p\<ge>k. hard env p)"
    for its3 k1
  proof -
    from computeComplexity_returns[OF d t] obtain runtime1 where
      "computeComplexity env its3 k1 = Some runtime1" by blast
    with ne s assms show ?thesis
      by (simp add: run_def Let_def)
  qed
  have R: "cpx r \<noteq> Unknown
            \<and> (\<exists>its3 k1 runtime1.
                  simplify env its2 k0 = Some (its3, k1)
                  \<and> computeComplexity env its3 k1 = Some runtime1
                  \<and> (if cpx runtime1 = Unknown
                      then r = runtime1\<lparr>cpx := Const, bound := Numeric 1, guard := []\<rparr>
                      else r = runtime1))"
    if ne: "\<not> isEmpty its2" and run: "run env its0 k0 = Some r" for r
  proof -
    from assms ne run obtain its3 k1 runtime1 where
      s: "simplify env its2 k0 = Some (its3, k1)"
      and c: "computeComplexity env its3 k1 = Some runtime1"
      and r: "r = (if cpx runtime1 = Unknown
                   then runtime1\<lparr>cpx := Const, bound := Numeric 1, guard := []\<rparr> else runtime1)"
      by (auto simp: run_def Let_def split: option.splits)
    have "cpx r \<noteq> Unknown"
      unfolding r by (rule coerced_not_Unknown)
    then show ?thesis
      using s c r by auto
  qed
  show ?thesis
    apply (intro conjI allI impI)
    subgoal using E by blast
    subgoal using E by blast
    subgoal for its3 k1 by (rule T)
    subgoal for r using R[of r] by blast
    subgoal for r using R[of r] by blast
    done
qed

theorem run_result_witness:
  "run exampleEnvUnknown exampleFlat 0 =
      Some \<lparr>cpx = Const, bound = Numeric 1, reducedCpx = Unknown, guard = []\<rparr>
   \<and> \<not> isEmpty (removeUnsatInitialRules exampleEnvUnknown (snd (ensureProperInitialLocation exampleFlat)))
   \<and> computeComplexity exampleEnvUnknown exampleFlat 0 =
      Some \<lparr>cpx = Unknown, bound = Numeric 0, reducedCpx = Unknown, guard = []\<rparr>
   \<and> \<not> isEmpty (removeUnsatInitialRules exampleEnvTimeout (snd (ensureProperInitialLocation exampleTwoStep)))
   \<and> \<not> isFullySimplified exampleTwoStep
   \<and> (\<exists>r. run exampleEnvTimeout exampleTwoStep 0 = Some r \<and> cpx r \<noteq> Unknown)
   \<and> run exampleEnvTimeout exampleTwoStep 0 =
      Some \<lparr>cpx = Const, bound = Numeric 1, reducedCpx = Unknown, guard = []\<rparr>
   \<and> run exampleEnvChain exampleTwoStep 0 =
      Some \<lparr>cpx = Poly 1, bound = Add (Numeric 1) (Symbol (Var 0)), reducedCpx = Poly 1,
            guard = []\<rparr>"
proof -
  have h: "run exampleEnvUnknown exampleFlat 0 =
      Some \<lparr>cpx = Const, bound = Numeric 1, reducedCpx = Unknown, guard = []\<rparr>"
    by code_simp
  have e: "\<not> isEmpty (removeUnsatInitialRules exampleEnvUnknown (snd (ensureProperInitialLocation exampleFlat)))"
    by code_simp
  have c: "computeComplexity exampleEnvUnknown exampleFlat 0 =
      Some \<lparr>cpx = Unknown, bound = Numeric 0, reducedCpx = Unknown, guard = []\<rparr>"
    by code_simp
  have e2: "\<not> isEmpty (removeUnsatInitialRules exampleEnvTimeout (snd (ensureProperInitialLocation exampleTwoStep)))"
    by code_simp
  have s2: "simplify exampleEnvTimeout
              (removeUnsatInitialRules exampleEnvTimeout (snd (ensureProperInitialLocation exampleTwoStep))) 0
              = Some (exampleTwoStep, 0)"
    by code_simp
  have d2: "distinct (map fst (rules exampleTwoStep))"
    by code_simp
  have nf: "\<not> isFullySimplified exampleTwoStep"
    by code_simp
  have t2: "isFullySimplified exampleTwoStep \<or> (\<forall>k. \<exists>p\<ge>k. hard exampleEnvTimeout p)"
    by (auto simp: exampleEnvTimeout_def)
  note spec = run_result [OF refl, of exampleEnvTimeout exampleTwoStep 0]
  from spec[THEN conjunct2, THEN conjunct1, rule_format, OF e2 s2 d2 t2]
  obtain r where r: "run exampleEnvTimeout exampleTwoStep 0 = Some r" by blast
  from spec[THEN conjunct2, THEN conjunct2, rule_format, OF e2 r]
  have "cpx r \<noteq> Unknown" by blast
  with r have ex: "\<exists>r. run exampleEnvTimeout exampleTwoStep 0 = Some r \<and> cpx r \<noteq> Unknown"
    by blast
  have r2: "run exampleEnvTimeout exampleTwoStep 0 =
      Some \<lparr>cpx = Const, bound = Numeric 1, reducedCpx = Unknown, guard = []\<rparr>"
    by code_simp
  have r3: "run exampleEnvChain exampleTwoStep 0 =
      Some \<lparr>cpx = Poly 1, bound = Add (Numeric 1) (Symbol (Var 0)), reducedCpx = Poly 1,
            guard = []\<rparr>"
    by code_simp
  from h e c e2 nf ex r2 r3 show ?thesis
    by (intro conjI)
qed

end
